theory Spec2Isabelle
  imports Complex_Main "HOL-Library.Word" "HOL-Library.Sublist"
begin

section \<open>Exceptions of the platform\<close>

text \<open>The DOMExceptions that the modelled calls can throw, by name.\<close>

datatype error = InvalidStateError | DataCloneError | IndexSizeError


section \<open>Audio capture worklet (preload-browser.cjs, AudioCaptureProcessor)\<close>

text \<open>
  A Float32 sample is modelled by its 32-bit pattern: the code only copies samples
  (\<^verbatim>\<open>Float32Array.prototype.set\<close>, \<^verbatim>\<open>subarray\<close>), it never computes with them, and a
  freshly allocated \<^verbatim>\<open>Float32Array\<close> holds zeros.
\<close>

type_synonym sample = "32 word"

text \<open>\<^verbatim>\<open>src.subarray(b, e)\<close>: the window is clamped to the array.\<close>

definition subarray :: "sample list \<Rightarrow> nat \<Rightarrow> nat \<Rightarrow> sample list" where
  "subarray xs b e = take (e - b) (drop b xs)"

text \<open>
  \<^verbatim>\<open>dst.set(src, off)\<close> overwrites \<open>dst\<close> from offset \<open>off\<close>. JavaScript raises a
  RangeError when \<open>src\<close> does not fit; every call below is made with
  \<open>off + length src \<le> length dst\<close> (lemma \<open>length_ta_set\<close> and the invariant
  \<open>proc_inv\<close>).
\<close>

definition ta_set :: "sample list \<Rightarrow> sample list \<Rightarrow> nat \<Rightarrow> sample list" where
  "ta_set dst src off = take off dst @ src @ drop (off + length src) dst"

text \<open>The fields \<^verbatim>\<open>_size\<close>, \<^verbatim>\<open>_ch0\<close>, \<^verbatim>\<open>_ch1\<close>, \<^verbatim>\<open>_pos\<close>, \<^verbatim>\<open>_stopped\<close> of the processor.\<close>

record processor =
  size_f :: nat
  ch0 :: "sample list"
  ch1 :: "sample list"
  pos :: nat
  stopped :: bool

text \<open>The message \<^verbatim>\<open>{ noSamples, planar }\<close> posted on the port and forwarded as \<^verbatim>\<open>audio-pcm-data\<close>.\<close>

record audio_msg =
  noSamples :: nat
  planar :: "sample list"

text \<open>The constructor: \<^verbatim>\<open>this._size = opts.bufferSize || 4096\<close>, two zeroed buffers, \<^verbatim>\<open>_pos = 0\<close>.\<close>

definition new_processor :: "nat \<Rightarrow> processor" where
  "new_processor bufferSize =
     (let sz = (if bufferSize = 0 then 4096 else bufferSize)
      in \<lparr>size_f = sz, ch0 = replicate sz 0, ch1 = replicate sz 0, pos = 0, stopped = False\<rparr>)"

text \<open>
  The class invariant: both buffers have \<^verbatim>\<open>_size\<close> slots and \<^verbatim>\<open>_pos\<close> is a valid index.
  The constructor establishes it and every pass of the loop keeps it.
\<close>

definition proc_inv :: "processor \<Rightarrow> bool" where
  "proc_inv p \<longleftrightarrow> pos p < size_f p \<and> length (ch0 p) = size_f p \<and> length (ch1 p) = size_f p"

text \<open>
  Lines 351--357: \<^verbatim>\<open>planar = new Float32Array(size * 2); planar.set(ch0, 0); planar.set(ch1, size)\<close>.
\<close>

definition flush_msg :: "processor \<Rightarrow> audio_msg" where
  "flush_msg p =
     \<lparr>noSamples = size_f p,
      planar = ta_set (ta_set (replicate (size_f p * 2) 0) (ch0 p) 0) (ch1 p) (size_f p)\<rparr>"

text \<open>Lines 346--348: copy \<open>n\<close> samples of each channel to \<^verbatim>\<open>_pos\<close> and advance it.\<close>

definition copy_in :: "processor \<Rightarrow> sample list \<Rightarrow> sample list \<Rightarrow> nat \<Rightarrow> nat \<Rightarrow> processor" where
  "copy_in p src0 src1 rd n =
     p\<lparr>ch0 := ta_set (ch0 p) (subarray src0 rd (rd + n)) (pos p),
       ch1 := ta_set (ch1 p) (subarray src1 rd (rd + n)) (pos p),
       pos := pos p + n\<rparr>"

text \<open>Lines 358--360: fresh zeroed buffers, \<^verbatim>\<open>_pos = 0\<close>.\<close>

definition reset_bufs :: "processor \<Rightarrow> processor" where
  "reset_bufs p = p\<lparr>ch0 := replicate (size_f p) 0, ch1 := replicate (size_f p) 0, pos := 0\<rparr>"

text \<open>
  The \<^verbatim>\<open>while (rem > 0)\<close> loop of \<^verbatim>\<open>process\<close>, with \<open>rd\<close> for \<^verbatim>\<open>read\<close> and \<open>out\<close> for the
  messages posted so far. \<open>min rem (size_f p - pos p)\<close> is \<^verbatim>\<open>n = Math.min(rem, space)\<close>. The
  result is \<open>None\<close> only for a record outside the class invariant, which no
  constructed processor reaches (lemma \<open>process_loop_tracks\<close>).
\<close>

function process_loop ::
  "processor \<Rightarrow> sample list \<Rightarrow> sample list \<Rightarrow> nat \<Rightarrow> nat \<Rightarrow> audio_msg list
     \<Rightarrow> (processor \<times> audio_msg list) option" where
  "process_loop p src0 src1 rd rem out =
     (if rem = 0 then Some (p, out)
      else if \<not> proc_inv p then None
      else if size_f p \<le> pos p + min rem (size_f p - pos p)
        then process_loop (reset_bufs (copy_in p src0 src1 rd (min rem (size_f p - pos p))))
               src0 src1 (rd + min rem (size_f p - pos p)) (rem - min rem (size_f p - pos p))
               (out @ [flush_msg (copy_in p src0 src1 rd (min rem (size_f p - pos p)))])
        else process_loop (copy_in p src0 src1 rd (min rem (size_f p - pos p)))
               src0 src1 (rd + min rem (size_f p - pos p)) (rem - min rem (size_f p - pos p)) out)"
  by pat_completeness auto
termination
  by (relation "measure (\<lambda>(p, src0, src1, rd, rem, out). rem)") (auto simp: proc_inv_def)

declare process_loop.simps [simp del]

text \<open>
  \<^verbatim>\<open>process(inputs)\<close>: the new state, the messages posted, and the returned flag.
  \<open>inputs\<close> is the list of inputs, each a list of channels.
\<close>

definition process :: "processor \<Rightarrow> sample list list list \<Rightarrow> (processor \<times> audio_msg list \<times> bool) option" where
  "process p inputs =
     (if stopped p then Some (p, [], False)
      else case inputs of
        [] \<Rightarrow> Some (p, [], True)
      | inp # _ \<Rightarrow>
          (case inp of
             [] \<Rightarrow> Some (p, [], True)
           | src0 # others \<Rightarrow>
               (let src1 = (case others of [] \<Rightarrow> src0 | s1 # _ \<Rightarrow> s1)
                in case process_loop p src0 src1 0 (length src0) [] of
                     None \<Rightarrow> None
                   | Some (p', out) \<Rightarrow> Some (p', out, True))))"

text \<open>Successive render quanta: one \<^verbatim>\<open>process\<close> call per element, messages in posting order.\<close>

fun process_all :: "processor \<Rightarrow> sample list list list list \<Rightarrow> (processor \<times> audio_msg list) option" where
  "process_all p [] = Some (p, [])"
| "process_all p (inputs # rest) =
     (case process p inputs of
        None \<Rightarrow> None
      | Some (p', out, _) \<Rightarrow>
          (case process_all p' rest of
             None \<Rightarrow> None
           | Some (p'', out') \<Rightarrow> Some (p'', out @ out')))"

subsection \<open>The output contract, in the words of the specification\<close>

text \<open>
  Chunk number \<open>k\<close> of a two-channel stream: \<open>sz\<close> samples of channel 0 from offset
  \<open>k * sz\<close>, followed by the same window of channel 1 (planar layout).
\<close>

definition chunk_at :: "nat \<Rightarrow> sample list \<Rightarrow> sample list \<Rightarrow> nat \<Rightarrow> audio_msg" where
  "chunk_at sz xs ys k =
     \<lparr>noSamples = sz, planar = take sz (drop (k * sz) xs) @ take sz (drop (k * sz) ys)\<rparr>"

definition chunks_from :: "nat \<Rightarrow> sample list \<Rightarrow> sample list \<Rightarrow> nat \<Rightarrow> audio_msg list" where
  "chunks_from sz xs ys m = map (chunk_at sz xs ys) [m..<length xs div sz]"

definition chunks_of :: "nat \<Rightarrow> sample list \<Rightarrow> sample list \<Rightarrow> audio_msg list" where
  "chunks_of sz xs ys = chunks_from sz xs ys 0"

text \<open>
  The processor \<open>p\<close> has consumed the streams \<open>h0\<close>, \<open>h1\<close>: the samples after the last
  full chunk are exactly the ones waiting in its buffers.
\<close>

definition tracks :: "processor \<Rightarrow> sample list \<Rightarrow> sample list \<Rightarrow> bool" where
  "tracks p h0 h1 \<longleftrightarrow>
     proc_inv p \<and> length h0 = length h1 \<and> pos p = length h0 mod size_f p \<and>
     take (pos p) (ch0 p) = drop (length h0 div size_f p * size_f p) h0 \<and>
     take (pos p) (ch1 p) = drop (length h0 div size_f p * size_f p) h1"

text \<open>One render quantum with a two-channel input.\<close>

definition stereo :: "sample list \<times> sample list \<Rightarrow> sample list list list" where
  "stereo b = [[fst b, snd b]]"

section \<open>The two capture strategies (preload-browser.cjs, lines 372--433)\<close>

text \<open>
  \<^verbatim>\<open>_createScriptNode\<close>, the \<^verbatim>\<open>onaudioprocess\<close> handler: the two channels of
  \<^verbatim>\<open>e.inputBuffer\<close> are packed into one planar buffer of \<^verbatim>\<open>ch0.length * 2\<close> samples.
\<close>

definition onaudioprocess :: "sample list \<times> sample list \<Rightarrow> audio_msg" where
  "onaudioprocess e =
     (let c0 = fst e; c1 = snd e; n = length c0
      in \<lparr>noSamples = n, planar = ta_set (ta_set (replicate (n * 2) 0) c0 0) c1 n\<rparr>)"

text \<open>
  \<^verbatim>\<open>_createWorkletNode\<close>, the \<^verbatim>\<open>node.port.onmessage\<close> handler: the message of the
  processor is forwarded as \<^verbatim>\<open>audio-pcm-data\<close> with the same two fields.
\<close>

definition port_onmessage :: "audio_msg \<Rightarrow> audio_msg" where
  "port_onmessage m = \<lparr>noSamples = noSamples m, planar = planar m\<rparr>"

text \<open>Line 433: \<^verbatim>\<open>bufferSize = (opts && opts.bufferSize) || 4096\<close>, handed to both strategies.\<close>

definition capture_bufferSize :: "nat \<Rightarrow> nat" where
  "capture_bufferSize opt = (if opt = 0 then 4096 else opt)"

text \<open>
  What the preferred strategy sends as \<^verbatim>\<open>audio-pcm-data\<close> when its processor is called
  with the given render quanta.
\<close>

definition worklet_strategy :: "nat \<Rightarrow> (sample list \<times> sample list) list \<Rightarrow> audio_msg list option" where
  "worklet_strategy bufferSize quanta =
     (case process_all (new_processor bufferSize) (map stereo quanta) of
        None \<Rightarrow> None
      | Some (p, out) \<Rightarrow> Some (map port_onmessage out))"

text \<open>
  The platform's \<^verbatim>\<open>createScriptProcessor(bufferSize, 2, 2)\<close>, called in line 408. It
  throws an IndexSizeError unless \<open>bufferSize\<close> is 0 or one of 256, 512, 1024, 2048, 4096,
  8192, 16384; the result is the buffer size of the node, for 0 the size \<open>impl\<close> that
  the implementation picks.
\<close>

definition valid_script_size :: "nat \<Rightarrow> bool" where
  "valid_script_size n \<longleftrightarrow> n \<in> {256, 512, 1024, 2048, 4096, 8192, 16384}"

definition createScriptProcessor :: "nat \<Rightarrow> nat \<Rightarrow> error + nat" where
  "createScriptProcessor impl bufferSize =
     (if bufferSize = 0 then Inr impl
      else if valid_script_size bufferSize then Inr bufferSize
      else Inl IndexSizeError)"

text \<open>
  The \<^verbatim>\<open>audioprocess\<close> events of a node of buffer size \<open>n\<close> whose input is the two-channel
  stream \<open>xs\<close>, \<open>ys\<close>: one event for every \<open>n\<close> frames, its \<^verbatim>\<open>inputBuffer\<close> holding
  those frames.
\<close>

definition audio_events :: "nat \<Rightarrow> sample list \<Rightarrow> sample list \<Rightarrow> (sample list \<times> sample list) list" where
  "audio_events n xs ys =
     map (\<lambda>k. (take n (drop (k * n) xs), take n (drop (k * n) ys))) [0..<length xs div n]"

text \<open>
  \<^verbatim>\<open>_createScriptNode(audioCtx, source, bufferSize)\<close>, lines 407--429, and what it sends as
  \<^verbatim>\<open>audio-pcm-data\<close> for the input stream: the exception of the platform call, or one
  message per event.
\<close>

definition script_strategy :: "nat \<Rightarrow> nat \<Rightarrow> sample list \<Rightarrow> sample list \<Rightarrow> error + audio_msg list" where
  "script_strategy impl bufferSize xs ys =
     (case createScriptProcessor impl bufferSize of
        Inl e \<Rightarrow> Inl e
      | Inr n \<Rightarrow> Inr (map onaudioprocess (audio_events n xs ys)))"

section \<open>JavaScript numbers\<close>

text \<open>
  A JavaScript number is an IEEE 754 binary64 value: a finite value (\<open>Dbl x\<close>, with
  \<open>Dbl 0\<close> for \<^verbatim>\<open>+0\<close>), \<^verbatim>\<open>-0\<close>, the two infinities, or NaN. Every arithmetic operation
  returns the exact result rounded to the nearest binary64 value, ties to the even
  mantissa.
\<close>

datatype double = Dbl real | NegZero | PosInf | NegInf | NaN

text \<open>The binary exponent of a positive real: \<open>2 powi ilog2 x \<le> x < 2 powi (ilog2 x + 1)\<close>.\<close>

function ilog2 :: "real \<Rightarrow> int" where
  "ilog2 x =
     (if x \<le> 0 then 0
      else if 2 \<le> x then ilog2 (x / 2) + 1
      else if x < 1 then ilog2 (x * 2) - 1
      else 0)"
  by pat_completeness auto
termination
proof (relation "measure (\<lambda>x. nat \<bar>\<lfloor>log 2 x\<rfloor>\<bar>)")
  show "wf (measure (\<lambda>x. nat \<bar>\<lfloor>log 2 x\<rfloor>\<bar>))" by simp
next
  fix x :: real
  assume "\<not> x \<le> 0" "2 \<le> x"
  then have "\<lfloor>log 2 (x / 2)\<rfloor> = \<lfloor>log 2 x\<rfloor> - 1 \<and> 1 \<le> \<lfloor>log 2 x\<rfloor>"
    by (simp add: log_divide)
  then show "(x / 2, x) \<in> measure (\<lambda>x. nat \<bar>\<lfloor>log 2 x\<rfloor>\<bar>)" by simp
next
  fix x :: real
  assume x: "\<not> x \<le> 0" "\<not> 2 \<le> x" "x < 1"
  then have "log 2 (x * 2) = log 2 x + 1" by (simp add: log_mult)
  moreover have "log 2 x < 0" using x by simp
  then have "\<lfloor>log 2 x\<rfloor> < 0" by (simp add: floor_less_iff)
  then have "\<lfloor>log 2 x\<rfloor> \<le> - 1" by linarith
  moreover have "\<lfloor>log 2 x + 1\<rfloor> = \<lfloor>log 2 x\<rfloor> + 1" by simp
  ultimately show "(x * 2, x) \<in> measure (\<lambda>x. nat \<bar>\<lfloor>log 2 x\<rfloor>\<bar>)" by simp
qed

declare ilog2.simps [simp del]

text \<open>The nearest integer, a tie going to the even one.\<close>

definition rne :: "real \<Rightarrow> int" where
  "rne y =
     (let f = \<lfloor>y\<rfloor>; r = y - of_int f
      in if r < 1 / 2 then f else if 1 / 2 < r then f + 1 else if even f then f else f + 1)"

text \<open>
  Rounding an exact result to binary64: 53 significant bits at the exponent of \<open>x\<close>, the
  exponent not below \<open>-1022\<close> (gradual underflow); a rounded magnitude of \<open>2 ^ 1024\<close> or
  more is an infinity, a rounded magnitude of zero keeps the sign of \<open>x\<close>.
\<close>

definition rnd :: "real \<Rightarrow> double" where
  "rnd x =
     (if x = 0 then Dbl 0
      else
        let e = max (ilog2 \<bar>x\<bar>) (- 1022);
            r = of_int (rne (x * 2 powi (52 - e))) * 2 powi (e - 52)
        in if 2 ^ 1024 \<le> \<bar>r\<bar> then (if x < 0 then NegInf else PosInf)
           else if r = 0 then (if x < 0 then NegZero else Dbl 0)
           else Dbl r)"

fun is_nan :: "double \<Rightarrow> bool" where
  "is_nan NaN = True"
| "is_nan _ = False"

fun is_inf :: "double \<Rightarrow> bool" where
  "is_inf PosInf = True"
| "is_inf NegInf = True"
| "is_inf _ = False"

text \<open>The sign bit, and the real value of a finite number.\<close>

fun dneg :: "double \<Rightarrow> bool" where
  "dneg (Dbl x) = (x < 0)"
| "dneg NegZero = True"
| "dneg PosInf = False"
| "dneg NegInf = True"
| "dneg NaN = False"

fun dreal :: "double \<Rightarrow> real" where
  "dreal (Dbl x) = x"
| "dreal _ = 0"

definition signed_inf :: "bool \<Rightarrow> double" where
  "signed_inf neg = (if neg then NegInf else PosInf)"

definition signed_zero :: "bool \<Rightarrow> double" where
  "signed_zero neg = (if neg then NegZero else Dbl 0)"

text \<open>The operator \<^verbatim>\<open>/\<close>.\<close>

definition ddiv :: "double \<Rightarrow> double \<Rightarrow> double" where
  "ddiv a b =
     (if is_nan a \<or> is_nan b then NaN
      else if is_inf a then (if is_inf b then NaN else signed_inf (dneg a \<noteq> dneg b))
      else if is_inf b then signed_zero (dneg a \<noteq> dneg b)
      else if dreal b = 0 then
        (if dreal a = 0 then NaN else signed_inf (dneg a \<noteq> dneg b))
      else if dreal a = 0 then signed_zero (dneg a \<noteq> dneg b)
      else rnd (dreal a / dreal b))"

text \<open>The operator \<^verbatim>\<open>-\<close>. An exact difference of zero is \<^verbatim>\<open>+0\<close>, except \<^verbatim>\<open>(-0) - (+0)\<close>.\<close>

definition dsub :: "double \<Rightarrow> double \<Rightarrow> double" where
  "dsub a b =
     (if is_nan a \<or> is_nan b then NaN
      else if is_inf a then (if is_inf b \<and> dneg a = dneg b then NaN else a)
      else if is_inf b then signed_inf (\<not> dneg b)
      else if dreal a = dreal b then (if a = NegZero \<and> b = Dbl 0 then NegZero else Dbl 0)
      else rnd (dreal a - dreal b))"

text \<open>\<^verbatim>\<open>Math.max\<close> of two numbers: NaN when either is NaN, and \<^verbatim>\<open>+0\<close> above \<^verbatim>\<open>-0\<close>.\<close>

definition dmax :: "double \<Rightarrow> double \<Rightarrow> double" where
  "dmax a b =
     (if is_nan a \<or> is_nan b then NaN
      else if a = PosInf \<or> b = PosInf then PosInf
      else if a = NegInf then b
      else if b = NegInf then a
      else if dreal a < dreal b then b
      else if dreal b < dreal a then a
      else if a = NegZero then b
      else a)"

text \<open>The values that \<^verbatim>\<open>||\<close> skips: \<^verbatim>\<open>+0\<close>, \<^verbatim>\<open>-0\<close> and NaN.\<close>

definition falsy :: "double \<Rightarrow> bool" where
  "falsy d \<longleftrightarrow> d = Dbl 0 \<or> d = NegZero \<or> d = NaN"

section \<open>The NDI sender of one window (ndi-manager.cjs, class NdiManager)\<close>

text \<open>
  A sender handle returned by \<^verbatim>\<open>grandi.send\<close> is named by a number; every handle is new.
  A queue entry is the object \<^verbatim>\<open>{ data, noSamples }\<close> pushed by \<^verbatim>\<open>pushAudio\<close>.
\<close>

type_synonym handle = nat

record chunk =
  data :: "8 word list"
  nSamples :: nat

text \<open>The calls made on a sender handle, in the order they are issued.\<close>

datatype call =
  VideoCall handle nat nat double
| AudioCall handle chunk
| DestroyCall handle

text \<open>
  An \<^verbatim>\<open>async\<close> method runs synchronously up to its next \<^verbatim>\<open>await\<close> and is resumed
  later, when the awaited promise settles. A suspended \<^verbatim>\<open>_loop\<close> waits for
  \<^verbatim>\<open>capturePage()\<close> or for \<^verbatim>\<open>sender.video(...)\<close> and remembers its \<^verbatim>\<open>t0\<close>; a suspended
  \<^verbatim>\<open>start\<close> waits for \<^verbatim>\<open>this.stop()\<close> or for \<^verbatim>\<open>grandi.send(...)\<close> and remembers its
  arguments; a suspended \<^verbatim>\<open>_drainAudioQueue\<close> waits for \<^verbatim>\<open>sender.audio(...)\<close> of the
  chunk it took.
\<close>

datatype loop_task = AwaitCapture double | AwaitVideo double

datatype start_task = AwaitStop double nat nat bool | AwaitSender

text \<open>
  The fields of the object (\<^verbatim>\<open>sender\<close>, \<^verbatim>\<open>running\<close>, \<^verbatim>\<open>_timeout\<close>, \<^verbatim>\<open>fps\<close>, \<^verbatim>\<open>width\<close>,
  \<^verbatim>\<open>height\<close>, \<^verbatim>\<open>audioEnabled\<close>, \<^verbatim>\<open>_audioDraining\<close>, \<^verbatim>\<open>_audioQueue\<close>), followed by
  what the runtime holds for it: whether the module \<^verbatim>\<open>grandi\<close> was loaded, the pending
  timers with their delays, the suspended method activations, and the log of sender
  calls.
\<close>

record ndi =
  sender :: "handle option"
  running :: bool
  timeout :: "nat option"
  fps :: double
  width :: nat
  height :: nat
  audioEnabled :: bool
  audioDraining :: bool
  audioQueue :: "chunk list"
  grandi :: bool
  timers :: "(nat \<times> double) list"
  nextTimer :: nat
  nextHandle :: handle
  loops :: "loop_task list"
  starts :: "start_task list"
  drains :: "chunk list"
  calls :: "call list"

text \<open>The constructor, lines 22--39.\<close>

definition new_ndi :: "bool \<Rightarrow> ndi" where
  "new_ndi g =
     \<lparr>sender = None, running = False, timeout = None, fps = Dbl 30, width = 1280, height = 720,
      audioEnabled = False, audioDraining = False, audioQueue = [],
      grandi = g, timers = [], nextTimer = 0, nextHandle = 0,
      loops = [], starts = [], drains = [], calls = []\<rparr>"

definition remove_nth :: "nat \<Rightarrow> 'a list \<Rightarrow> 'a list" where
  "remove_nth k xs = take k xs @ drop (Suc k) xs"

text \<open>
  \<^verbatim>\<open>stop()\<close>, lines 199--214. The body has no \<^verbatim>\<open>await\<close>: it runs to its end within the
  call. An exception of \<^verbatim>\<open>sender.destroy()\<close> is caught and logged, so the call is
  recorded and the handle dropped either way.
\<close>

definition stop :: "ndi \<Rightarrow> ndi" where
  "stop s =
     (let s1 = s\<lparr>running := False\<rparr>;
          s2 = (case timeout s1 of
                  None \<Rightarrow> s1
                | Some t \<Rightarrow> s1\<lparr>timers := filter (\<lambda>e. fst e \<noteq> t) (timers s1), timeout := None\<rparr>);
          s3 = s2\<lparr>audioQueue := []\<rparr>
      in case sender s3 of
           None \<Rightarrow> s3
         | Some h \<Rightarrow> s3\<lparr>calls := calls s3 @ [DestroyCall h], sender := None\<rparr>)"

text \<open>
  The head of the \<^verbatim>\<open>while\<close> loop of \<^verbatim>\<open>_drainAudioQueue\<close>, lines 158--195, entered at the
  call and again each time the awaited send settles: either the head chunk is shifted
  off the queue and sent on the current sender (the activation is suspended on that
  send), or the loop ends and \<^verbatim>\<open>_audioDraining\<close> is cleared.
\<close>

definition drain_continue :: "ndi \<Rightarrow> ndi" where
  "drain_continue s =
     (case audioQueue s of
        [] \<Rightarrow> s\<lparr>audioDraining := False\<rparr>
      | c # q \<Rightarrow>
          (if running s then
             (case sender s of
                None \<Rightarrow> s\<lparr>audioDraining := False\<rparr>
              | Some h \<Rightarrow> s\<lparr>audioQueue := q, calls := calls s @ [AudioCall h c],
                            drains := drains s @ [c]\<rparr>)
           else s\<lparr>audioDraining := False\<rparr>))"

definition drainAudioQueue :: "ndi \<Rightarrow> ndi" where
  "drainAudioQueue s = drain_continue (s\<lparr>audioDraining := True\<rparr>)"

text \<open>\<^verbatim>\<open>pushAudio(planarBuf, noSamples)\<close>, lines 142--153.\<close>

definition pushAudio :: "ndi \<Rightarrow> chunk \<Rightarrow> ndi" where
  "pushAudio s c =
     (if \<not> running s \<or> \<not> audioEnabled s \<or> sender s = None then s
      else
        let q = (if length (audioQueue s) \<ge> 8 then tl (audioQueue s) else audioQueue s);
            s1 = s\<lparr>audioQueue := q @ [c]\<rparr>
        in if \<not> audioDraining s1 then drainAudioQueue s1 else s1)"

text \<open>
  \<^verbatim>\<open>_loop()\<close> up to its first \<^verbatim>\<open>await\<close>, lines 74--92. \<open>destroyed\<close> is the answer of
  \<^verbatim>\<open>browserWindow.isDestroyed()\<close> and \<open>now\<close> the reading of \<^verbatim>\<open>performance.now()\<close>.
\<close>

definition loop_enter :: "ndi \<Rightarrow> bool \<Rightarrow> double \<Rightarrow> ndi" where
  "loop_enter s destroyed now =
     (if \<not> running s \<or> sender s = None then s
      else if destroyed then stop s
      else s\<lparr>loops := loops s @ [AwaitCapture now]\<rparr>)"

text \<open>
  The end of an iteration, lines 128--133: nothing when the stream was stopped meanwhile,
  otherwise a timer with \<^verbatim>\<open>delay = Math.max(1, 1000 / this.fps - elapsed)\<close>.
\<close>

definition rearm :: "ndi \<Rightarrow> double \<Rightarrow> double \<Rightarrow> ndi" where
  "rearm s t0 now =
     (if \<not> running s then s
      else
        let elapsed = dsub now t0;
            interval = ddiv (Dbl 1000) (fps s);
            delay = dmax (Dbl 1) (dsub interval elapsed)
        in s\<lparr>timeout := Some (nextTimer s), timers := timers s @ [(nextTimer s, delay)],
             nextTimer := Suc (nextTimer s)\<rparr>)"

text \<open>
  \<^verbatim>\<open>_loop()\<close> resumed after \<^verbatim>\<open>capturePage()\<close>, lines 92--124. When the capture or the
  conversion to a bitmap failed (\<open>ok\<close> false), or when \<^verbatim>\<open>this.sender\<close> is \<^verbatim>\<open>null\<close> by now
  (a TypeError inside the \<^verbatim>\<open>try\<close>), the \<^verbatim>\<open>catch\<close> runs and the iteration goes on to its
  end; otherwise the frame is sent and the activation waits for that send.
\<close>

definition capture_settled :: "ndi \<Rightarrow> nat \<Rightarrow> bool \<Rightarrow> double \<Rightarrow> ndi" where
  "capture_settled s k ok now =
     (if k < length (loops s) then
        (case loops s ! k of
           AwaitCapture t0 \<Rightarrow>
             (let s1 = s\<lparr>loops := remove_nth k (loops s)\<rparr>
              in if ok then
                   (case sender s1 of
                      None \<Rightarrow> rearm s1 t0 now
                    | Some h \<Rightarrow>
                        s1\<lparr>calls := calls s1 @ [VideoCall h (width s1) (height s1) (fps s1)],
                           loops := loops s1 @ [AwaitVideo t0]\<rparr>)
                 else rearm s1 t0 now)
         | AwaitVideo t0 \<Rightarrow> s)
      else s)"

text \<open>\<^verbatim>\<open>_loop()\<close> resumed after \<^verbatim>\<open>sender.video(...)\<close>, resolved or rejected.\<close>

definition video_settled :: "ndi \<Rightarrow> nat \<Rightarrow> bool \<Rightarrow> double \<Rightarrow> ndi" where
  "video_settled s k ok now =
     (if k < length (loops s) then
        (case loops s ! k of
           AwaitVideo t0 \<Rightarrow> rearm (s\<lparr>loops := remove_nth k (loops s)\<rparr>) t0 now
         | AwaitCapture t0 \<Rightarrow> s)
      else s)"

text \<open>A pending timer fires: \<^verbatim>\<open>() => this._loop()\<close>.\<close>

definition timer_fired :: "ndi \<Rightarrow> nat \<Rightarrow> bool \<Rightarrow> double \<Rightarrow> ndi" where
  "timer_fired s t destroyed now =
     (if t \<in> fst ` set (timers s)
      then loop_enter (s\<lparr>timers := filter (\<lambda>e. fst e \<noteq> t) (timers s)\<rparr>) destroyed now
      else s)"

text \<open>\<^verbatim>\<open>_drainAudioQueue()\<close> resumed after \<^verbatim>\<open>sender.audio(...)\<close>, resolved or rejected.\<close>

definition audio_settled :: "ndi \<Rightarrow> nat \<Rightarrow> bool \<Rightarrow> ndi" where
  "audio_settled s k ok =
     (if k < length (drains s) then drain_continue (s\<lparr>drains := remove_nth k (drains s)\<rparr>)
      else s)"

text \<open>
  \<^verbatim>\<open>start(ndiName, fps, width, height, audioEnabled)\<close>, lines 49--71, in its three
  stretches. The first one throws when \<^verbatim>\<open>grandi\<close> is missing.
\<close>

datatype ndi_error = GrandiNotAvailable

definition start_configure :: "ndi \<Rightarrow> double \<Rightarrow> nat \<Rightarrow> nat \<Rightarrow> bool \<Rightarrow> ndi" where
  "start_configure s f w h ae =
     s\<lparr>fps := (if falsy f then Dbl 30 else f),
       width := (if w = 0 then 1280 else w),
       height := (if h = 0 then 720 else h),
       audioEnabled := ae,
       starts := starts s @ [AwaitSender]\<rparr>"

definition start :: "ndi \<Rightarrow> string \<Rightarrow> double \<Rightarrow> nat \<Rightarrow> nat \<Rightarrow> bool \<Rightarrow> ndi_error + ndi" where
  "start s ndiName f w h ae =
     (if \<not> grandi s then Inl GrandiNotAvailable
      else if running s then Inr ((stop s)\<lparr>starts := starts (stop s) @ [AwaitStop f w h ae]\<rparr>)
      else Inr (start_configure s f w h ae))"

definition start_resumed :: "ndi \<Rightarrow> nat \<Rightarrow> ndi" where
  "start_resumed s k =
     (if k < length (starts s) then
        (case starts s ! k of
           AwaitStop f w h ae \<Rightarrow> start_configure (s\<lparr>starts := remove_nth k (starts s)\<rparr>) f w h ae
         | AwaitSender \<Rightarrow> s)
      else s)"

definition sender_settled :: "ndi \<Rightarrow> nat \<Rightarrow> bool \<Rightarrow> bool \<Rightarrow> double \<Rightarrow> ndi" where
  "sender_settled s k ok destroyed now =
     (if k < length (starts s) then
        (case starts s ! k of
           AwaitSender \<Rightarrow>
             (let s1 = s\<lparr>starts := remove_nth k (starts s)\<rparr>
              in if ok then
                   loop_enter (s1\<lparr>sender := Some (nextHandle s1), nextHandle := Suc (nextHandle s1),
                                  audioQueue := [], running := True\<rparr>) destroyed now
                 else s1)
         | AwaitStop f w h ae \<Rightarrow> s)
      else s)"

text \<open>
  What can happen to the object: a method is called from main.cjs, or the runtime
  resumes one of the suspended activations. \<open>step\<close> performs one of them; a \<^verbatim>\<open>start\<close> that
  throws leaves the object as it was.
\<close>

datatype event =
  CallStart string double nat nat bool
| StartResumed nat
| SenderSettled nat bool bool double
| CallStop
| PushAudio chunk
| TimerFired nat bool double
| CaptureSettled nat bool double
| VideoSettled nat bool double
| AudioSettled nat bool

fun step :: "ndi \<Rightarrow> event \<Rightarrow> ndi" where
  "step s (CallStart n f w h ae) = (case start s n f w h ae of Inl e \<Rightarrow> s | Inr s' \<Rightarrow> s')"
| "step s (StartResumed k) = start_resumed s k"
| "step s (SenderSettled k ok destroyed now) = sender_settled s k ok destroyed now"
| "step s CallStop = stop s"
| "step s (PushAudio c) = pushAudio s c"
| "step s (TimerFired t destroyed now) = timer_fired s t destroyed now"
| "step s (CaptureSettled k ok now) = capture_settled s k ok now"
| "step s (VideoSettled k ok now) = video_settled s k ok now"
| "step s (AudioSettled k ok) = audio_settled s k ok"

definition run :: "ndi \<Rightarrow> event list \<Rightarrow> ndi" where
  "run s es = foldl step s es"

text \<open>The chunks handed to \<^verbatim>\<open>sender.audio\<close>, the chunks pushed, the events in which
  \<^verbatim>\<open>grandi.send\<close> resolves with a new sender, and the calls made on a given handle.\<close>

fun audio_sent :: "call list \<Rightarrow> chunk list" where
  "audio_sent [] = []"
| "audio_sent (AudioCall h c # cs) = c # audio_sent cs"
| "audio_sent (_ # cs) = audio_sent cs"

fun pushes :: "event list \<Rightarrow> chunk list" where
  "pushes [] = []"
| "pushes (PushAudio c # es) = c # pushes es"
| "pushes (_ # es) = pushes es"




subsection \<open>Invariants of the object\<close>

text \<open>
  What holds of the object after any sequence of events: the queue bound, at most one
  suspended drain, the flag \<^verbatim>\<open>_audioDraining\<close> set exactly while a drain is suspended,
  a sender present exactly while running, an empty queue whenever nothing drains or
  nothing runs, and handles below the next one to be given out.
\<close>

definition ndi_inv :: "ndi \<Rightarrow> bool" where
  "ndi_inv s \<longleftrightarrow>
     length (audioQueue s) \<le> 8 \<and> length (drains s) \<le> 1 \<and>
     (audioDraining s \<longleftrightarrow> drains s \<noteq> []) \<and>
     (running s \<longleftrightarrow> sender s \<noteq> None) \<and>
     (\<not> audioDraining s \<longrightarrow> audioQueue s = []) \<and>
     (\<not> running s \<longrightarrow> audioQueue s = []) \<and>
     (\<forall>h. sender s = Some h \<longrightarrow> h < nextHandle s)"

text \<open>
  Between two states: what was sent in between, followed by what is queued at the end,
  is a subsequence of what was queued at the start followed by the chunks \<open>P\<close> pushed in
  between.
\<close>

definition fifo_rel :: "ndi \<Rightarrow> ndi \<Rightarrow> chunk list \<Rightarrow> bool" where
  "fifo_rel s s' P \<longleftrightarrow>
     (\<exists>X. audio_sent (calls s') = audio_sent (calls s) @ X \<and>
          subseq (X @ audioQueue s') (audioQueue s @ P))"

text \<open>The object after \<^verbatim>\<open>stop()\<close>, and a handle that is no longer the sender.\<close>

definition idle :: "ndi \<Rightarrow> bool" where
  "idle s \<longleftrightarrow> \<not> running s \<and> sender s = None"

definition retired :: "handle \<Rightarrow> ndi \<Rightarrow> bool" where
  "retired h s \<longleftrightarrow> sender s \<noteq> Some h \<and> h < nextHandle s"

section \<open>The broadcast relay of one window (preload-browser.cjs, lines 15--113)\<close>

subsection \<open>Messages and their copies\<close>

text \<open>
  A message is a JavaScript value. Arrays, plain objects, host objects and functions are
  objects with an identity, written as the address in front; the primitives have none.
  A host object (a \<^verbatim>\<open>Blob\<close>, an \<^verbatim>\<open>ImageData\<close>, \<dots>) can be copied by \<^verbatim>\<open>structuredClone\<close>
  inside the renderer but cannot be sent over Electron's IPC; a function can be
  neither copied nor sent. The JSON-representable values are those built without the
  last two.
\<close>

type_synonym addr = nat

datatype jsval =
  JNull
| JBool bool
| JNum real
| JStr string
| JArr addr "jsval list"
| JObj addr "(string \<times> jsval) list"
| JHost addr string
| JFun addr

text \<open>
  The platform's \<^verbatim>\<open>structuredClone\<close>, with the allocator made explicit: \<open>n\<close> is the
  next unused address, every object of the copy is new, and the call throws
  (\<open>None\<close>, a DataCloneError) when it meets a function.
\<close>

fun structuredClone :: "addr \<Rightarrow> jsval \<Rightarrow> (jsval \<times> addr) option"
  and clone_list :: "addr \<Rightarrow> jsval list \<Rightarrow> (jsval list \<times> addr) option"
  and clone_props :: "addr \<Rightarrow> (string \<times> jsval) list \<Rightarrow> ((string \<times> jsval) list \<times> addr) option"
where
  "structuredClone n JNull = Some (JNull, n)"
| "structuredClone n (JBool b) = Some (JBool b, n)"
| "structuredClone n (JNum x) = Some (JNum x, n)"
| "structuredClone n (JStr t) = Some (JStr t, n)"
| "structuredClone n (JArr a vs) =
     (case clone_list (Suc n) vs of None \<Rightarrow> None | Some (vs', n') \<Rightarrow> Some (JArr n vs', n'))"
| "structuredClone n (JObj a ps) =
     (case clone_props (Suc n) ps of None \<Rightarrow> None | Some (ps', n') \<Rightarrow> Some (JObj n ps', n'))"
| "structuredClone n (JHost a t) = Some (JHost n t, Suc n)"
| "structuredClone n (JFun a) = None"
| "clone_list n [] = Some ([], n)"
| "clone_list n (v # vs) =
     (case structuredClone n v of
        None \<Rightarrow> None
      | Some (v', n1) \<Rightarrow>
          (case clone_list n1 vs of None \<Rightarrow> None | Some (vs', n2) \<Rightarrow> Some (v' # vs', n2)))"
| "clone_props n [] = Some ([], n)"
| "clone_props n (p # ps) =
     (case structuredClone n (snd p) of
        None \<Rightarrow> None
      | Some (v', n1) \<Rightarrow>
          (case clone_props n1 ps of
             None \<Rightarrow> None
           | Some (ps', n2) \<Rightarrow> Some ((fst p, v') # ps', n2)))"

text \<open>The objects a value is made of, and the value with the identities forgotten.\<close>

fun addrs :: "jsval \<Rightarrow> addr list"
  and addrs_list :: "jsval list \<Rightarrow> addr list"
  and addrs_props :: "(string \<times> jsval) list \<Rightarrow> addr list"
where
  "addrs JNull = []"
| "addrs (JBool b) = []"
| "addrs (JNum x) = []"
| "addrs (JStr t) = []"
| "addrs (JArr a vs) = a # addrs_list vs"
| "addrs (JObj a ps) = a # addrs_props ps"
| "addrs (JHost a t) = [a]"
| "addrs (JFun a) = [a]"
| "addrs_list [] = []"
| "addrs_list (v # vs) = addrs v @ addrs_list vs"
| "addrs_props [] = []"
| "addrs_props (p # ps) = addrs (snd p) @ addrs_props ps"

fun shape :: "jsval \<Rightarrow> jsval"
  and shape_list :: "jsval list \<Rightarrow> jsval list"
  and shape_props :: "(string \<times> jsval) list \<Rightarrow> (string \<times> jsval) list"
where
  "shape JNull = JNull"
| "shape (JBool b) = JBool b"
| "shape (JNum x) = JNum x"
| "shape (JStr t) = JStr t"
| "shape (JArr a vs) = JArr 0 (shape_list vs)"
| "shape (JObj a ps) = JObj 0 (shape_props ps)"
| "shape (JHost a t) = JHost 0 t"
| "shape (JFun a) = JFun 0"
| "shape_list [] = []"
| "shape_list (v # vs) = shape v # shape_list vs"
| "shape_props [] = []"
| "shape_props (p # ps) = (fst p, shape (snd p)) # shape_props ps"

text \<open>Deep equality, and sharing an object (two references to the same thing).\<close>

definition deep_equal :: "jsval \<Rightarrow> jsval \<Rightarrow> bool" where
  "deep_equal v w \<longleftrightarrow> shape v = shape w"

definition shares :: "jsval \<Rightarrow> jsval \<Rightarrow> bool" where
  "shares v w \<longleftrightarrow> set (addrs v) \<inter> set (addrs w) \<noteq> {}"

fun no_sharing :: "jsval list \<Rightarrow> bool" where
  "no_sharing [] = True"
| "no_sharing (v # vs) = (list_all (\<lambda>w. \<not> shares v w) vs \<and> no_sharing vs)"

text \<open>What can be copied, what can be sent over the IPC, what is JSON-representable.\<close>

fun has_fun :: "jsval \<Rightarrow> bool"
  and has_fun_list :: "jsval list \<Rightarrow> bool"
  and has_fun_props :: "(string \<times> jsval) list \<Rightarrow> bool"
where
  "has_fun JNull = False"
| "has_fun (JBool b) = False"
| "has_fun (JNum x) = False"
| "has_fun (JStr t) = False"
| "has_fun (JArr a vs) = has_fun_list vs"
| "has_fun (JObj a ps) = has_fun_props ps"
| "has_fun (JHost a t) = False"
| "has_fun (JFun a) = True"
| "has_fun_list [] = False"
| "has_fun_list (v # vs) = (has_fun v \<or> has_fun_list vs)"
| "has_fun_props [] = False"
| "has_fun_props (p # ps) = (has_fun (snd p) \<or> has_fun_props ps)"

fun has_host :: "jsval \<Rightarrow> bool"
  and has_host_list :: "jsval list \<Rightarrow> bool"
  and has_host_props :: "(string \<times> jsval) list \<Rightarrow> bool"
where
  "has_host JNull = False"
| "has_host (JBool b) = False"
| "has_host (JNum x) = False"
| "has_host (JStr t) = False"
| "has_host (JArr a vs) = has_host_list vs"
| "has_host (JObj a ps) = has_host_props ps"
| "has_host (JHost a t) = True"
| "has_host (JFun a) = False"
| "has_host_list [] = False"
| "has_host_list (v # vs) = (has_host v \<or> has_host_list vs)"
| "has_host_props [] = False"
| "has_host_props (p # ps) = (has_host (snd p) \<or> has_host_props ps)"

definition json :: "jsval \<Rightarrow> bool" where
  "json v \<longleftrightarrow> \<not> has_fun v \<and> \<not> has_host v"

subsection \<open>The registry and the channels\<close>

text \<open>
  A \<^verbatim>\<open>BridgedBroadcastChannel\<close> object is named by its position in \<open>insts\<close>, the list of
  all objects constructed so far; its fields are \<^verbatim>\<open>name\<close> and \<^verbatim>\<open>_closed\<close> (the two
  handler fields play no part in who is delivered to). The registry maps a channel name
  to its \<^verbatim>\<open>Set\<close>, kept in insertion order, the order in which a \<^verbatim>\<open>Set\<close> is iterated.
  \<open>microtasks\<close> holds the closures queued by \<^verbatim>\<open>queueMicrotask\<close>, each with its instance
  and its data; \<open>delivered\<close> lists the MessageEvents dispatched; \<open>outbox\<close> lists the
  payloads handed to \<^verbatim>\<open>ipcRenderer.send\<close>; \<open>nextAddr\<close> is the allocator.
\<close>

record inst =
  name :: string
  closed :: bool

record relay =
  insts :: "inst list"
  registry :: "string \<rightharpoonup> nat list"
  microtasks :: "(nat \<times> jsval) list"
  delivered :: "(nat \<times> jsval) list"
  outbox :: "(string \<times> jsval) list"
  nextAddr :: addr

definition new_relay :: relay where
  "new_relay = \<lparr>insts = [], registry = Map.empty, microtasks = [], delivered = [], outbox = [],
                nextAddr = 0\<rparr>"

text \<open>The constructor, lines 21--32.\<close>

definition new_channel :: "relay \<Rightarrow> string \<Rightarrow> relay" where
  "new_channel s nm =
     (let i = length (insts s);
          r = (if registry s nm = None then (registry s)(nm \<mapsto> []) else registry s)
      in s\<lparr>insts := insts s @ [\<lparr>name = nm, closed = False\<rparr>],
           registry := r(nm \<mapsto> (case r nm of None \<Rightarrow> [] | Some js \<Rightarrow> js) @ [i])\<rparr>)"

text \<open>
  The loop of lines 48--52 over the instances of the channel: every other instance that
  is not closed gets \<^verbatim>\<open>_dispatch(inst, structuredClone(cloned))\<close>, that is one more
  microtask with a copy of its own. \<open>self\<close> is \<^verbatim>\<open>this\<close>; the receive handler of lines
  101--109 runs the same loop without the test \<^verbatim>\<open>inst !== this\<close> (\<open>self = None\<close>).
\<close>

fun dispatch_all :: "relay \<Rightarrow> nat option \<Rightarrow> jsval \<Rightarrow> nat list \<Rightarrow> relay option" where
  "dispatch_all s self cloned [] = Some s"
| "dispatch_all s self cloned (j # js) =
     (if Some j \<noteq> self \<and> \<not> closed (insts s ! j) then
        (case structuredClone (nextAddr s) cloned of
           None \<Rightarrow> None
         | Some (d, n) \<Rightarrow>
             dispatch_all (s\<lparr>microtasks := microtasks s @ [(j, d)], nextAddr := n\<rparr>) self cloned js)
      else dispatch_all s self cloned js)"

text \<open>
  \<^verbatim>\<open>ipcRenderer.send\<close> serialises its argument and throws when it holds a function or a
  host object.
\<close>

definition ipc_serializable :: "jsval \<Rightarrow> bool" where
  "ipc_serializable v \<longleftrightarrow> \<not> has_fun v \<and> \<not> has_host v"

text \<open>
  \<^verbatim>\<open>postMessage(message)\<close>, lines 35--64, called on instance \<open>i\<close>. The result is the
  exception thrown, or the state after the call. The \<^verbatim>\<open>try\<close> only encloses
  \<^verbatim>\<open>ipcRenderer.send\<close>: a failure there is swallowed, a failure of
  \<^verbatim>\<open>structuredClone(message)\<close> in line 43 leaves the method.
\<close>

definition postMessage :: "relay \<Rightarrow> nat \<Rightarrow> jsval \<Rightarrow> error + relay" where
  "postMessage s i message =
     (if closed (insts s ! i) then Inl InvalidStateError
      else
        (case structuredClone (nextAddr s) message of
           None \<Rightarrow> Inl DataCloneError
         | Some (cloned, n) \<Rightarrow>
             (case dispatch_all (s\<lparr>nextAddr := n\<rparr>) (Some i) cloned
                     (case registry s (name (insts s ! i)) of None \<Rightarrow> [] | Some js \<Rightarrow> js) of
                None \<Rightarrow> Inl DataCloneError
              | Some s1 \<Rightarrow>
                  Inr (if ipc_serializable cloned
                       then s1\<lparr>outbox := outbox s1 @ [(name (insts s ! i), cloned)]\<rparr>
                       else s1))))"

text \<open>\<^verbatim>\<open>close()\<close>, lines 66--74.\<close>

definition close :: "relay \<Rightarrow> nat \<Rightarrow> relay" where
  "close s i =
     (if closed (insts s ! i) then s
      else
        let s1 = s\<lparr>insts := (insts s)[i := (insts s ! i)\<lparr>closed := True\<rparr>]\<rparr>;
            nm = name (insts s ! i)
        in case registry s1 nm of
             None \<Rightarrow> s1
           | Some js \<Rightarrow>
               (let js' = filter (\<lambda>j. j \<noteq> i) js
                in if js' = [] then s1\<lparr>registry := (registry s1)(nm := None)\<rparr>
                   else s1\<lparr>registry := (registry s1)(nm \<mapsto> js')\<rparr>))"

text \<open>
  The closure queued by \<^verbatim>\<open>_dispatch\<close>, lines 92--97, run when its turn comes: nothing
  when the instance was closed meanwhile, otherwise one MessageEvent with the data.
\<close>

definition run_microtask :: "relay \<Rightarrow> relay" where
  "run_microtask s =
     (case microtasks s of
        [] \<Rightarrow> s
      | (i, d) # rest \<Rightarrow>
          (if closed (insts s ! i) then s\<lparr>microtasks := rest\<rparr>
           else s\<lparr>microtasks := rest, delivered := delivered s @ [(i, d)]\<rparr>))"

text \<open>
  The handler of \<^verbatim>\<open>broadcast-channel-message\<close>, lines 101--109. The payload arrives
  serialised from another window; the IPC layer first rebuilds it in this window, from
  new objects, and the handler then copies it once per open instance of the channel.
\<close>

definition on_broadcast :: "relay \<Rightarrow> string \<Rightarrow> jsval \<Rightarrow> relay option" where
  "on_broadcast s channel payload =
     (case structuredClone (nextAddr s) payload of
        None \<Rightarrow> None
      | Some (message, n) \<Rightarrow>
          (case registry s channel of
             None \<Rightarrow> Some (s\<lparr>nextAddr := n\<rparr>)
           | Some js \<Rightarrow> dispatch_all (s\<lparr>nextAddr := n\<rparr>) None message js))"

text \<open>
  What can happen in the window: page code constructs a channel, posts on one, closes
  one; the runtime runs the next microtask; a payload arrives from the main process
  (always one that was serialised, so the step is skipped for one that cannot be). A
  call on an object that does not exist is no step, and a \<^verbatim>\<open>postMessage\<close> that throws
  leaves the state as it was.
\<close>

datatype relay_event =
  New string
| Post nat jsval
| Close nat
| Microtask
| Receive string jsval

fun relay_step :: "relay \<Rightarrow> relay_event \<Rightarrow> relay" where
  "relay_step s (New nm) = new_channel s nm"
| "relay_step s (Post i m) =
     (if i < length (insts s) then (case postMessage s i m of Inl e \<Rightarrow> s | Inr s' \<Rightarrow> s') else s)"
| "relay_step s (Close i) = (if i < length (insts s) then close s i else s)"
| "relay_step s Microtask = run_microtask s"
| "relay_step s (Receive channel payload) =
     (case on_broadcast s channel payload of None \<Rightarrow> s | Some s' \<Rightarrow> s')"

definition relay_run :: "relay \<Rightarrow> relay_event list \<Rightarrow> relay" where
  "relay_run s es = foldl relay_step s es"

text \<open>The instances a publish from \<open>i\<close> is for: the others on its channel that are open.\<close>

definition targets :: "relay \<Rightarrow> nat \<Rightarrow> nat list" where
  "targets s i =
     filter (\<lambda>j. j \<noteq> i \<and> \<not> closed (insts s ! j))
       (case registry s (name (insts s ! i)) of None \<Rightarrow> [] | Some js \<Rightarrow> js)"

definition receivers :: "relay \<Rightarrow> string \<Rightarrow> nat list" where
  "receivers s channel =
     filter (\<lambda>j. \<not> closed (insts s ! j))
       (case registry s channel of None \<Rightarrow> [] | Some js \<Rightarrow> js)"

text \<open>A MessageEvent dispatched on instance \<open>i\<close>.\<close>

definition to_inst :: "nat \<Rightarrow> nat \<times> jsval \<Rightarrow> bool" where
  "to_inst i e \<longleftrightarrow> fst e = i"

section \<open>Audio capture worklet: accumulation into fixed-size chunks\<close>

lemma partial_mod: "0 < sz \<Longrightarrow> L mod sz + n < sz \<Longrightarrow> (L + n) mod sz = L mod (sz::nat) + n"
  by (metis mod_less add.commute mod_add_right_eq)
lemma full_mod: "0 < sz \<Longrightarrow> L mod sz + n = sz \<Longrightarrow> (L + n) mod sz = (0::nat)"
  by (metis mod_add_left_eq mod_self)
lemma full_len: "0 < sz \<Longrightarrow> L mod sz + n = sz \<Longrightarrow> L + n = Suc (L div (sz::nat)) * sz"
  by (metis add.assoc add.commute div_mod_decomp mult.commute mult_Suc_right)
lemma full_div: "0 < sz \<Longrightarrow> L mod sz + n = sz \<Longrightarrow> (L + n) div sz = Suc (L div (sz::nat))"
  using full_len [of sz L n] by simp
lemma partial_div:
  assumes "0 < sz" "L mod sz + n < sz" shows "(L + n) div sz = L div (sz::nat)"
proof -
  define q where "q = L div sz"
  define r where "r = L mod sz"
  have e: "L = sz * q + r" by (simp add: q_def r_def)
  have r: "r + n < sz" using assms by (simp add: r_def)
  have "(L + n) div sz = q"
  proof (rule div_nat_eqI)
    show "sz * q \<le> L + n" using e by linarith
    have "sz * Suc q = sz * q + sz" by simp
    then show "L + n < sz * Suc q" using e r by linarith
  qed
  then show ?thesis by (simp add: q_def)
qed
lemma length_ta_set: "off + length src \<le> length dst \<Longrightarrow> length (ta_set dst src off) = length dst"
  by (simp add: ta_set_def)

lemma take_ta_set:
  "off + length src \<le> length dst \<Longrightarrow> take (off + length src) (ta_set dst src off) = take off dst @ src"
  by (simp add: ta_set_def)

lemma planar_flush:
  "length (ch0 p) = size_f p \<Longrightarrow> length (ch1 p) = size_f p \<Longrightarrow>
   planar (flush_msg p) = ch0 p @ ch1 p"
  by (simp add: flush_msg_def ta_set_def)

lemma chunk_at_append:
  assumes "k * sz + sz \<le> length h0" "length h0 = length h1"
  shows "chunk_at sz (h0 @ z0) (h1 @ z1) k = chunk_at sz h0 h1 k"
  using assms by (simp add: chunk_at_def)

lemma tracks_new: "tracks (new_processor b) [] []"
  by (simp add: tracks_def new_processor_def proc_inv_def Let_def)

lemma copy_in_tracks_partial:
  assumes t: "tracks p h0 h1" and n: "pos p + n < size_f p"
    and z0: "length z0 = n" and z1: "length z1 = n"
    and s0: "subarray src0 rd (rd + n) = z0" and s1: "subarray src1 rd (rd + n) = z1"
  shows "tracks (copy_in p src0 src1 rd n) (h0 @ z0) (h1 @ z1)"
proof -
  let ?sz = "size_f p"
  from t have inv: "proc_inv p" and len: "length h0 = length h1"
    and pos: "pos p = length h0 mod ?sz"
    and p0: "take (pos p) (ch0 p) = drop (length h0 div ?sz * ?sz) h0"
    and p1: "take (pos p) (ch1 p) = drop (length h0 div ?sz * ?sz) h1"
    unfolding tracks_def by blast+
  from inv have l0: "length (ch0 p) = ?sz" and l1: "length (ch1 p) = ?sz"
    by (simp_all add: proc_inv_def)
  have szpos: "0 < ?sz" using inv by (simp add: proc_inv_def)
  have d: "(length h0 + n) div ?sz = length h0 div ?sz"
    using partial_div [OF szpos, of "length h0" n] n pos by simp
  have m: "(length h0 + n) mod ?sz = pos p + n"
    using partial_mod [OF szpos, of "length h0" n] n pos by simp
  have le: "length h0 div ?sz * ?sz \<le> length h0" by simp
  have t0: "take (pos p + n) (ta_set (ch0 p) z0 (pos p)) = take (pos p) (ch0 p) @ z0"
    using take_ta_set [of "pos p" z0 "ch0 p"] z0 n l0 by simp
  have t1: "take (pos p + n) (ta_set (ch1 p) z1 (pos p)) = take (pos p) (ch1 p) @ z1"
    using take_ta_set [of "pos p" z1 "ch1 p"] z1 n l1 by simp
  have inv': "proc_inv (copy_in p src0 src1 rd n)"
    using n z0 z1 s0 s1 l0 l1 by (simp add: proc_inv_def copy_in_def length_ta_set)
  have sz': "size_f (copy_in p src0 src1 rd n) = ?sz" by (simp add: copy_in_def)
  have pos': "pos (copy_in p src0 src1 rd n) = pos p + n" by (simp add: copy_in_def)
  have c0: "ch0 (copy_in p src0 src1 rd n) = ta_set (ch0 p) z0 (pos p)"
    using s0 by (simp add: copy_in_def)
  have c1: "ch1 (copy_in p src0 src1 rd n) = ta_set (ch1 p) z1 (pos p)"
    using s1 by (simp add: copy_in_def)
  show ?thesis
    unfolding tracks_def sz' pos' c0 c1 t0 t1
    using inv' len z0 z1 d m p0 p1 le by simp
qed

lemma copy_in_full:
  assumes t: "tracks p h0 h1" and n: "pos p + n = size_f p"
    and z0: "length z0 = n" and z1: "length z1 = n"
    and s0: "subarray src0 rd (rd + n) = z0" and s1: "subarray src1 rd (rd + n) = z1"
  shows "flush_msg (copy_in p src0 src1 rd n) =
           chunk_at (size_f p) (h0 @ z0) (h1 @ z1) (length h0 div size_f p)"
    and "tracks (reset_bufs (copy_in p src0 src1 rd n)) (h0 @ z0) (h1 @ z1)"
    and "length (h0 @ z0) div size_f p = Suc (length h0 div size_f p)"
proof -
  let ?sz = "size_f p"
  let ?q = "copy_in p src0 src1 rd n"
  from t have inv: "proc_inv p" and len: "length h0 = length h1"
    and pos: "pos p = length h0 mod ?sz"
    and p0: "take (pos p) (ch0 p) = drop (length h0 div ?sz * ?sz) h0"
    and p1: "take (pos p) (ch1 p) = drop (length h0 div ?sz * ?sz) h1"
    unfolding tracks_def by blast+
  from inv have l0: "length (ch0 p) = ?sz" and l1: "length (ch1 p) = ?sz"
    by (simp_all add: proc_inv_def)
  have szpos: "0 < ?sz" using inv by (simp add: proc_inv_def)
  have d: "(length h0 + n) div ?sz = Suc (length h0 div ?sz)"
    using full_div [OF szpos, of "length h0" n] n pos by simp
  have m: "(length h0 + n) mod ?sz = 0"
    using full_mod [OF szpos, of "length h0" n] n pos by simp
  have tot: "length h0 + n = Suc (length h0 div ?sz) * ?sz"
    using full_len [OF szpos, of "length h0" n] n pos by simp
  show "length (h0 @ z0) div size_f p = Suc (length h0 div size_f p)" using d z0 by simp
  have le: "length h0 div ?sz * ?sz \<le> length h0" by simp
  have c0: "ch0 ?q = take (pos p) (ch0 p) @ z0"
    using s0 z0 n l0 by (simp add: copy_in_def ta_set_def)
  have c1: "ch1 ?q = take (pos p) (ch1 p) @ z1"
    using s1 z1 n l1 by (simp add: copy_in_def ta_set_def)
  have sz': "size_f ?q = ?sz" by (simp add: copy_in_def)
  have lq0: "length (ch0 ?q) = ?sz" using c0 z0 n l0 by simp
  have lq1: "length (ch1 ?q) = ?sz" using c1 z1 n l1 by simp
  have rest0: "length (drop (length h0 div ?sz * ?sz) h0) + n = ?sz"
    using tot by simp
  have k0: "take ?sz (drop (length h0 div ?sz * ?sz) (h0 @ z0)) = take (pos p) (ch0 p) @ z0"
    using le z0 rest0 p0 by simp
  have rest1: "length (drop (length h0 div ?sz * ?sz) h1) + n = ?sz"
    using tot len by simp
  have k1: "take ?sz (drop (length h0 div ?sz * ?sz) (h1 @ z1)) = take (pos p) (ch1 p) @ z1"
    using le z1 rest1 p1 len by simp
  have "planar (flush_msg ?q) = ch0 ?q @ ch1 ?q"
    using planar_flush [of ?q] lq0 lq1 sz' by simp
  then show "flush_msg ?q = chunk_at ?sz (h0 @ z0) (h1 @ z1) (length h0 div ?sz)"
    using c0 c1 k0 k1 sz' by (simp add: chunk_at_def flush_msg_def)
  show "tracks (reset_bufs ?q) (h0 @ z0) (h1 @ z1)"
    unfolding tracks_def
    using szpos len z0 z1 m tot sz' by (simp add: reset_bufs_def proc_inv_def)
qed


lemma chunks_from_Cons:
  "m < length xs div sz \<Longrightarrow>
   chunks_from sz xs ys m = chunk_at sz xs ys m # chunks_from sz xs ys (Suc m)"
  by (simp add: chunks_from_def upt_conv_Cons)

lemma take_split: "n \<le> r \<Longrightarrow> take r xs = take n xs @ take (r - n) (drop n xs)"
  by (metis le_add_diff_inverse take_add)

lemma process_loop_tracks:
  assumes "tracks p h0 h1" "rd + rem \<le> length src0" "rd + rem \<le> length src1"
  shows "\<exists>p'. process_loop p src0 src1 rd rem out =
            Some (p', out @ chunks_from (size_f p) (h0 @ take rem (drop rd src0))
                             (h1 @ take rem (drop rd src1)) (length h0 div size_f p)) \<and>
          tracks p' (h0 @ take rem (drop rd src0)) (h1 @ take rem (drop rd src1)) \<and>
          size_f p' = size_f p \<and> stopped p' = stopped p"
  using assms
proof (induction p src0 src1 rd rem out arbitrary: h0 h1 rule: process_loop.induct)
  case (1 p src0 src1 rd rem out)
  let ?sz = "size_f p"
  from "1.prems"(1) have inv: "proc_inv p" and len: "length h0 = length h1"
    and pos: "pos p = length h0 mod ?sz"
    unfolding tracks_def by blast+
  have szpos: "0 < ?sz" and posl: "pos p < ?sz" using inv by (simp_all add: proc_inv_def)
  show ?case
  proof (cases "rem = 0")
    case True
    have "length h0 div ?sz = length h0 div ?sz" ..
    then have "chunks_from ?sz h0 h1 (length h0 div ?sz) = []"
      by (simp add: chunks_from_def)
    with True "1.prems"(1) show ?thesis
      by (subst process_loop.simps) simp
  next
    case False
    define n where "n = min rem (?sz - pos p)"
    define z0 where "z0 = take n (drop rd src0)"
    define z1 where "z1 = take n (drop rd src1)"
    have npos: "0 < n" "n \<le> rem" using False posl by (simp_all add: n_def)
    have lz0: "length z0 = n" using "1.prems"(2) npos by (simp add: z0_def)
    have lz1: "length z1 = n" using "1.prems"(3) npos by (simp add: z1_def)
    have s0: "subarray src0 rd (rd + n) = z0" by (simp add: subarray_def z0_def)
    have s1: "subarray src1 rd (rd + n) = z1" by (simp add: subarray_def z1_def)
    have sp0: "take rem (drop rd src0) = z0 @ take (rem - n) (drop (rd + n) src0)"
      using take_split [OF npos(2), of "drop rd src0"] by (simp add: z0_def add.commute)
    have sp1: "take rem (drop rd src1) = z1 @ take (rem - n) (drop (rd + n) src1)"
      using take_split [OF npos(2), of "drop rd src1"] by (simp add: z1_def add.commute)
    have b0: "rd + n + (rem - n) \<le> length src0" using "1.prems"(2) npos by simp
    have b1: "rd + n + (rem - n) \<le> length src1" using "1.prems"(3) npos by simp
    show ?thesis
    proof (cases "?sz \<le> pos p + n")
      case True
      then have full: "pos p + n = ?sz" using posl by (simp add: n_def)
      note cf = copy_in_full [OF "1.prems"(1) full lz0 lz1 s0 s1]
      let ?q = "reset_bufs (copy_in p src0 src1 rd n)"
      have szq: "size_f ?q = ?sz" and stq: "stopped ?q = stopped p"
        by (simp_all add: reset_bufs_def copy_in_def)
      from "1.IH"(1) [of "h0 @ z0" "h1 @ z1", folded n_def] False inv True cf(2) b0 b1
      obtain p' where
        run: "process_loop ?q src0 src1 (rd + n) (rem - n)
                (out @ [flush_msg (copy_in p src0 src1 rd n)]) =
              Some (p', (out @ [flush_msg (copy_in p src0 src1 rd n)]) @
                 chunks_from (size_f ?q) ((h0 @ z0) @ take (rem - n) (drop (rd + n) src0))
                   ((h1 @ z1) @ take (rem - n) (drop (rd + n) src1))
                   (length (h0 @ z0) div size_f ?q))"
        and tr: "tracks p' ((h0 @ z0) @ take (rem - n) (drop (rd + n) src0))
                   ((h1 @ z1) @ take (rem - n) (drop (rd + n) src1))"
        and keep: "size_f p' = size_f ?q" "stopped p' = stopped ?q"
        by auto
      have m: "length h0 div ?sz < length (h0 @ take rem (drop rd src0)) div ?sz"
      proof -
        have "length (h0 @ z0) \<le> length (h0 @ take rem (drop rd src0))"
          unfolding sp0 by simp
        then have "length (h0 @ z0) div ?sz \<le> length (h0 @ take rem (drop rd src0)) div ?sz"
          by (rule div_le_mono)
        with cf(3) show ?thesis by simp
      qed
      have tot: "length h0 div ?sz * ?sz + ?sz \<le> length (h0 @ z0)"
        using cf(3) szpos
        by (metis div_mult_mod_eq le_add1 mult_Suc add.commute)
      have ca: "chunk_at ?sz (h0 @ take rem (drop rd src0)) (h1 @ take rem (drop rd src1))
                  (length h0 div ?sz) =
                chunk_at ?sz (h0 @ z0) (h1 @ z1) (length h0 div ?sz)"
        unfolding sp0 sp1 append_assoc [symmetric]
        by (rule chunk_at_append [OF tot]) (simp add: len lz0 lz1)
      have lhs: "process_loop p src0 src1 rd rem out =
            process_loop ?q src0 src1 (rd + n) (rem - n)
                (out @ [flush_msg (copy_in p src0 src1 rd n)])"
        by (subst process_loop.simps, fold n_def) (use False inv True in simp)
      have eq0: "(h0 @ z0) @ take (rem - n) (drop (rd + n) src0) = h0 @ take rem (drop rd src0)"
        and eq1: "(h1 @ z1) @ take (rem - n) (drop (rd + n) src1) = h1 @ take rem (drop rd src1)"
        using sp0 sp1 by simp_all
      note cc = chunks_from_Cons [OF m, of "h1 @ take rem (drop rd src1)"]
      have fin: "process_loop p src0 src1 rd rem out =
          Some (p', out @ chunks_from ?sz (h0 @ take rem (drop rd src0))
                           (h1 @ take rem (drop rd src1)) (length h0 div ?sz))"
      proof -
        have "chunks_from ?sz (h0 @ take rem (drop rd src0)) (h1 @ take rem (drop rd src1))
                (length h0 div ?sz) =
              flush_msg (copy_in p src0 src1 rd n) #
              chunks_from ?sz (h0 @ take rem (drop rd src0)) (h1 @ take rem (drop rd src1))
                (Suc (length h0 div ?sz))"
          using cc ca cf(1) by simp
        moreover have "process_loop ?q src0 src1 (rd + n) (rem - n)
                (out @ [flush_msg (copy_in p src0 src1 rd n)]) =
              Some (p', (out @ [flush_msg (copy_in p src0 src1 rd n)]) @
                 chunks_from ?sz (h0 @ take rem (drop rd src0)) (h1 @ take rem (drop rd src1))
                   (Suc (length h0 div ?sz)))"
          using run unfolding eq0 eq1 szq cf(3) .
        ultimately show ?thesis using lhs by simp
      qed
      show ?thesis
        using fin tr keep szq stq unfolding eq0 eq1 by simp
    next
      case notfull: False
      then have part: "pos p + n < ?sz" by simp
      note ct = copy_in_tracks_partial [OF "1.prems"(1) part lz0 lz1 s0 s1]
      let ?q = "copy_in p src0 src1 rd n"
      have szq: "size_f ?q = ?sz" and stq: "stopped ?q = stopped p"
        by (simp_all add: copy_in_def)
      have d: "length (h0 @ z0) div ?sz = length h0 div ?sz"
        using partial_div [OF szpos, of "length h0" n] part pos lz0 by simp
      from "1.IH"(2) [of "h0 @ z0" "h1 @ z1", folded n_def] False inv notfull ct b0 b1
      obtain p' where
        run: "process_loop ?q src0 src1 (rd + n) (rem - n) out =
              Some (p', out @
                 chunks_from (size_f ?q) ((h0 @ z0) @ take (rem - n) (drop (rd + n) src0))
                   ((h1 @ z1) @ take (rem - n) (drop (rd + n) src1))
                   (length (h0 @ z0) div size_f ?q))"
        and tr: "tracks p' ((h0 @ z0) @ take (rem - n) (drop (rd + n) src0))
                   ((h1 @ z1) @ take (rem - n) (drop (rd + n) src1))"
        and keep: "size_f p' = size_f ?q" "stopped p' = stopped ?q"
        by auto
      have lhs: "process_loop p src0 src1 rd rem out =
            process_loop ?q src0 src1 (rd + n) (rem - n) out"
        by (subst process_loop.simps, fold n_def) (use False inv notfull in simp)
      have eq0: "(h0 @ z0) @ take (rem - n) (drop (rd + n) src0) = h0 @ take rem (drop rd src0)"
        and eq1: "(h1 @ z1) @ take (rem - n) (drop (rd + n) src1) = h1 @ take rem (drop rd src1)"
        using sp0 sp1 by simp_all
      have fin: "process_loop p src0 src1 rd rem out =
          Some (p', out @ chunks_from ?sz (h0 @ take rem (drop rd src0))
                           (h1 @ take rem (drop rd src1)) (length h0 div ?sz))"
        using run lhs unfolding eq0 eq1 szq d by simp
      show ?thesis
        using fin tr keep szq stq unfolding eq0 eq1 by simp
    qed
  qed
qed



lemma process_stereo_tracks:
  assumes t: "tracks p h0 h1" and ns: "\<not> stopped p" and len: "length a = length b"
  shows "\<exists>p'. process p (stereo (a, b)) =
            Some (p', chunks_from (size_f p) (h0 @ a) (h1 @ b) (length h0 div size_f p), True) \<and>
          tracks p' (h0 @ a) (h1 @ b) \<and> size_f p' = size_f p \<and> \<not> stopped p'"
proof -
  from process_loop_tracks [OF t, of 0 "length a" a b "[]"] len ns
  obtain p' where
    "process_loop p a b 0 (length a) [] =
       Some (p', chunks_from (size_f p) (h0 @ a) (h1 @ b) (length h0 div size_f p))"
    "tracks p' (h0 @ a) (h1 @ b)" "size_f p' = size_f p" "\<not> stopped p'"
    by auto
  then show ?thesis using ns by (simp add: process_def stereo_def)
qed

lemma chunks_from_append:
  assumes len: "length h0 = length h1" and m: "m \<le> length h0 div sz"
  shows "chunks_from sz (h0 @ r0) (h1 @ r1) m =
         chunks_from sz h0 h1 m @ chunks_from sz (h0 @ r0) (h1 @ r1) (length h0 div sz)"
proof -
  let ?m1 = "length h0 div sz"
  let ?N = "length (h0 @ r0) div sz"
  have le: "?m1 \<le> ?N" by (rule div_le_mono) simp
  have split: "[m..<?N] = [m..<?m1] @ [?m1..<?N]"
    using m le by (metis le_Suc_ex upt_add_eq_append)
  have "map (chunk_at sz (h0 @ r0) (h1 @ r1)) [m..<?m1] = map (chunk_at sz h0 h1) [m..<?m1]"
  proof (rule map_cong [OF refl])
    fix k assume "k \<in> set [m..<?m1]"
    then have "Suc k \<le> ?m1" by simp
    then have "Suc k * sz \<le> ?m1 * sz" by (rule mult_le_mono1)
    also have "\<dots> \<le> length h0" by simp
    finally have "k * sz + sz \<le> length h0" by (simp add: add.commute)
    then show "chunk_at sz (h0 @ r0) (h1 @ r1) k = chunk_at sz h0 h1 k"
      by (rule chunk_at_append) (rule len)
  qed
  then show ?thesis
    unfolding chunks_from_def split map_append by simp
qed

lemma process_all_tracks:
  assumes "tracks p h0 h1" "\<not> stopped p" "\<forall>b \<in> set blocks. length (fst b) = length (snd b)"
  shows "\<exists>p'. process_all p (map stereo blocks) =
            Some (p', chunks_from (size_f p) (h0 @ concat (map fst blocks))
                        (h1 @ concat (map snd blocks)) (length h0 div size_f p)) \<and>
          tracks p' (h0 @ concat (map fst blocks)) (h1 @ concat (map snd blocks)) \<and>
          size_f p' = size_f p \<and> \<not> stopped p'"
  using assms
proof (induction blocks arbitrary: p h0 h1)
  case Nil
  then show ?case by (simp add: chunks_from_def)
next
  case (Cons blk blocks)
  obtain a b where blk: "blk = (a, b)" by (cases blk)
  from Cons.prems(3) blk have ab: "length a = length b" by simp
  from process_stereo_tracks [OF Cons.prems(1,2) ab]
  obtain p1 where
    one: "process p (stereo (a, b)) =
            Some (p1, chunks_from (size_f p) (h0 @ a) (h1 @ b) (length h0 div size_f p), True)"
    and t1: "tracks p1 (h0 @ a) (h1 @ b)" and s1: "size_f p1 = size_f p" and n1: "\<not> stopped p1"
    by blast
  from Cons.prems(3) have rest: "\<forall>b \<in> set blocks. length (fst b) = length (snd b)" by simp
  from Cons.IH [OF t1 n1 rest]
  obtain p' where
    more: "process_all p1 (map stereo blocks) =
            Some (p', chunks_from (size_f p1) ((h0 @ a) @ concat (map fst blocks))
                        ((h1 @ b) @ concat (map snd blocks)) (length (h0 @ a) div size_f p1))"
    and t': "tracks p' ((h0 @ a) @ concat (map fst blocks)) ((h1 @ b) @ concat (map snd blocks))"
    and s': "size_f p' = size_f p1" and n': "\<not> stopped p'"
    by blast
  have lens: "length (h0 @ a) = length (h1 @ b)"
    using t1 unfolding tracks_def by blast
  have mle: "length h0 div size_f p \<le> length (h0 @ a) div size_f p"
    by (rule div_le_mono) simp
  note app = chunks_from_append [OF lens mle, of "concat (map fst blocks)" "concat (map snd blocks)"]
  have "process_all p (map stereo (blk # blocks)) =
          Some (p', chunks_from (size_f p) (h0 @ a) (h1 @ b) (length h0 div size_f p) @
                    chunks_from (size_f p) ((h0 @ a) @ concat (map fst blocks))
                        ((h1 @ b) @ concat (map snd blocks)) (length (h0 @ a) div size_f p))"
    using one more s1 by (simp add: blk)
  then show ?case
    using app t' s' s1 n' by (simp add: blk)
qed

lemma concat_chunk_halves:
  "m * sz \<le> length xs \<Longrightarrow>
   concat (map (\<lambda>k. take sz (drop (k * sz) xs)) [0..<m]) = take (m * sz) xs"
proof (induction m)
  case 0
  then show ?case by simp
next
  case (Suc m)
  then have "m * sz \<le> length xs" by simp
  with Suc.IH have "concat (map (\<lambda>k. take sz (drop (k * sz) xs)) [0..<m]) = take (m * sz) xs"
    by simp
  moreover have "take (Suc m * sz) xs = take (m * sz) xs @ take sz (drop (m * sz) xs)"
    using take_add [of "m * sz" sz xs] by (simp add: add.commute)
  ultimately show ?case by simp
qed


lemma chunks_of_halves:
  assumes len: "length xs = length ys"
  shows "concat (map (\<lambda>m. take sz (planar m)) (chunks_of sz xs ys)) = take (length xs div sz * sz) xs"
    and "concat (map (\<lambda>m. drop sz (planar m)) (chunks_of sz xs ys)) = take (length xs div sz * sz) ys"
    and "\<forall>m \<in> set (chunks_of sz xs ys). noSamples m = sz \<and> length (planar m) = 2 * sz"
proof -
  let ?n = "length xs div sz"
  have full: "k * sz + sz \<le> length xs" if "k < ?n" for k
  proof -
    from that have "Suc k * sz \<le> ?n * sz" by (intro mult_le_mono1) simp
    also have "\<dots> \<le> length xs" by simp
    finally show ?thesis by (simp add: add.commute)
  qed
  have a: "map (\<lambda>m. take sz (planar m)) (chunks_of sz xs ys) =
           map (\<lambda>k. take sz (drop (k * sz) xs)) [0..<?n]"
    unfolding chunks_of_def chunks_from_def map_map
  proof (rule map_cong [OF refl])
    fix k assume "k \<in> set [0..<?n]"
    then have "k * sz + sz \<le> length xs" using full by simp
    then show "((\<lambda>m. take sz (planar m)) \<circ> chunk_at sz xs ys) k = take sz (drop (k * sz) xs)"
      by (simp add: chunk_at_def)
  qed
  have b: "map (\<lambda>m. drop sz (planar m)) (chunks_of sz xs ys) =
           map (\<lambda>k. take sz (drop (k * sz) ys)) [0..<?n]"
    unfolding chunks_of_def chunks_from_def map_map
  proof (rule map_cong [OF refl])
    fix k assume "k \<in> set [0..<?n]"
    then have "k * sz + sz \<le> length xs" using full by simp
    then show "((\<lambda>m. drop sz (planar m)) \<circ> chunk_at sz xs ys) k = take sz (drop (k * sz) ys)"
      by (simp add: chunk_at_def)
  qed
  show "concat (map (\<lambda>m. take sz (planar m)) (chunks_of sz xs ys)) = take (?n * sz) xs"
    unfolding a by (rule concat_chunk_halves) simp
  show "concat (map (\<lambda>m. drop sz (planar m)) (chunks_of sz xs ys)) = take (?n * sz) ys"
    unfolding b by (rule concat_chunk_halves) (simp add: len [symmetric])
  show "\<forall>m \<in> set (chunks_of sz xs ys). noSamples m = sz \<and> length (planar m) = 2 * sz"
  proof
    fix m assume "m \<in> set (chunks_of sz xs ys)"
    then obtain k where k: "k < ?n" and m: "m = chunk_at sz xs ys k"
      by (auto simp: chunks_of_def chunks_from_def)
    from full [OF k] len have "k * sz + sz \<le> length xs" "k * sz + sz \<le> length ys" by simp_all
    then show "noSamples m = sz \<and> length (planar m) = 2 * sz"
      by (simp add: m chunk_at_def)
  qed
qed

text \<open>
  Claim C6. Feed the worklet processor any sequence of two-channel blocks of arbitrary
  lengths. It returns, and the messages it posts are exactly the consecutive full chunks
  of the concatenated input, in input order: chunk \<open>k\<close> is \<open>size\<close> samples of channel 0
  followed by the same \<open>size\<close> samples of channel 1. Every message carries \<open>size\<close>
  samples per channel; the samples after the last full chunk wait in the buffers, so the
  posted channel halves followed by the buffered samples give back each input channel.
  With 12288 samples per channel and chunk size 4096 exactly 3 chunks are posted.
\<close>

theorem capture_emits_fixed_planar_chunks:
  assumes eq: "\<forall>b \<in> set blocks. length (fst b) = length (snd b)"
  shows "\<exists>p'. process_all (new_processor bufferSize) (map stereo blocks) =
            Some (p', chunks_of (size_f (new_processor bufferSize))
                        (concat (map fst blocks)) (concat (map snd blocks))) \<and>
          (\<forall>m \<in> set (chunks_of (size_f (new_processor bufferSize))
                        (concat (map fst blocks)) (concat (map snd blocks))).
              noSamples m = size_f (new_processor bufferSize) \<and>
              length (planar m) = 2 * size_f (new_processor bufferSize)) \<and>
          pos p' = length (concat (map fst blocks)) mod size_f (new_processor bufferSize) \<and>
          concat (map (\<lambda>m. take (size_f (new_processor bufferSize)) (planar m))
             (chunks_of (size_f (new_processor bufferSize))
                 (concat (map fst blocks)) (concat (map snd blocks)))) @ take (pos p') (ch0 p') =
            concat (map fst blocks) \<and>
          concat (map (\<lambda>m. drop (size_f (new_processor bufferSize)) (planar m))
             (chunks_of (size_f (new_processor bufferSize))
                 (concat (map fst blocks)) (concat (map snd blocks)))) @ take (pos p') (ch1 p') =
            concat (map snd blocks) \<and>
          (size_f (new_processor bufferSize) = 4096 \<and> length (concat (map fst blocks)) = 12288 \<longrightarrow>
             length (chunks_of (size_f (new_processor bufferSize))
                        (concat (map fst blocks)) (concat (map snd blocks))) = 3)"
proof -
  let ?p0 = "new_processor bufferSize"
  let ?sz = "size_f ?p0"
  let ?a0 = "concat (map fst blocks)"
  let ?a1 = "concat (map snd blocks)"
  have ns: "\<not> stopped ?p0" by (simp add: new_processor_def Let_def)
  from process_all_tracks [OF tracks_new ns eq]
  obtain p' where run: "process_all ?p0 (map stereo blocks) = Some (p', chunks_of ?sz ?a0 ?a1)"
    and t: "tracks p' ?a0 ?a1" and sz: "size_f p' = ?sz"
    by (auto simp: chunks_of_def)
  from t have len: "length ?a0 = length ?a1" and pos: "pos p' = length ?a0 mod ?sz"
    and p0: "take (pos p') (ch0 p') = drop (length ?a0 div ?sz * ?sz) ?a0"
    and p1: "take (pos p') (ch1 p') = drop (length ?a0 div ?sz * ?sz) ?a1"
    unfolding tracks_def sz by blast+
  note h = chunks_of_halves [OF len, of ?sz]
  have three: "?sz = 4096 \<and> length ?a0 = 12288 \<longrightarrow> length (chunks_of ?sz ?a0 ?a1) = 3"
    by (simp add: chunks_of_def chunks_from_def)
  have r0: "concat (map (\<lambda>m. take ?sz (planar m)) (chunks_of ?sz ?a0 ?a1)) @
              take (pos p') (ch0 p') = ?a0"
    unfolding h(1) p0 by simp
  have r1: "concat (map (\<lambda>m. drop ?sz (planar m)) (chunks_of ?sz ?a0 ?a1)) @
              take (pos p') (ch1 p') = ?a1"
    unfolding h(2) p1 by simp
  from run h(3) pos r0 r1 three show ?thesis by blast
qed

theorem capture_emits_fixed_planar_chunks_witness:
  "\<exists>p'. process_all (new_processor 4)
            (map stereo [([1, 2, 3], [11, 12, 13]),
                         ([4, 5, 6, 7, 8, 9], [14, 15, 16, 17, 18, 19 :: sample])]) =
          Some (p', [\<lparr>noSamples = 4, planar = [1, 2, 3, 4, 11, 12, 13, 14]\<rparr>,
                     \<lparr>noSamples = 4, planar = [5, 6, 7, 8, 15, 16, 17, 18]\<rparr>]) \<and>
          pos p' = 1 \<and> take (pos p') (ch0 p') = [9] \<and> take (pos p') (ch1 p') = [19]"
proof -
  have h: "\<forall>b \<in> set [([1, 2, 3], [11, 12, 13]), ([4, 5, 6, 7, 8, 9], [14, 15, 16, 17, 18, 19 :: sample])].
       length (fst b) = length (snd b)" by simp
  have c: "chunks_of 4 [1, 2, 3, 4, 5, 6, 7, 8, 9] [11, 12, 13, 14, 15, 16, 17, 18, 19 :: sample] =
        [\<lparr>noSamples = 4, planar = [1, 2, 3, 4, 11, 12, 13, 14]\<rparr>,
         \<lparr>noSamples = 4, planar = [5, 6, 7, 8, 15, 16, 17, 18]\<rparr>]"
    by (simp add: chunks_of_def chunks_from_def chunk_at_def upt_conv_Cons)
  have s: "size_f (new_processor 4) = 4" by (simp add: new_processor_def)
  from capture_emits_fixed_planar_chunks [OF h, of 4]
  show ?thesis unfolding s using c by auto
qed

section \<open>The two capture strategies\<close>

lemma process_all_new:
  assumes "\<forall>b \<in> set blocks. length (fst b) = length (snd b)"
  shows "\<exists>p'. process_all (new_processor bufferSize) (map stereo blocks) =
            Some (p', chunks_of (size_f (new_processor bufferSize))
                        (concat (map fst blocks)) (concat (map snd blocks))) \<and>
          tracks p' (concat (map fst blocks)) (concat (map snd blocks)) \<and>
          size_f p' = size_f (new_processor bufferSize)"
proof -
  have ns: "\<not> stopped (new_processor bufferSize)" by (simp add: new_processor_def Let_def)
  from process_all_tracks [OF tracks_new ns assms] show ?thesis
    by (auto simp: chunks_of_def)
qed

lemma onaudioprocess_planar:
  "length c0 = sz \<Longrightarrow> length c1 = sz \<Longrightarrow>
   onaudioprocess (c0, c1) = \<lparr>noSamples = sz, planar = c0 @ c1\<rparr>"
  by (simp add: onaudioprocess_def ta_set_def Let_def)

lemma script_events_chunks:
  assumes len: "length xs = length ys"
  shows "map onaudioprocess (audio_events n xs ys) = chunks_of n xs ys"
proof -
  have "(onaudioprocess \<circ> (\<lambda>k. (take n (drop (k * n) xs), take n (drop (k * n) ys)))) k =
        chunk_at n xs ys k" if "k \<in> set [0..<length xs div n]" for k
  proof -
    from that have "Suc k \<le> length xs div n" by simp
    then have "Suc k * n \<le> length xs div n * n" by (rule mult_le_mono1)
    also have "\<dots> \<le> length xs" by simp
    finally have b: "k * n + n \<le> length xs" by (simp add: add.commute)
    then have "length (take n (drop (k * n) xs)) = n" by simp
    moreover from b len have "length (take n (drop (k * n) ys)) = n" by simp
    ultimately show ?thesis
      using onaudioprocess_planar [of "take n (drop (k * n) xs)" n "take n (drop (k * n) ys)"]
      by (simp add: chunk_at_def)
  qed
  then show ?thesis
    unfolding audio_events_def chunks_of_def chunks_from_def map_map
    by (intro map_cong [OF refl]) simp
qed

lemma worklet_chunks:
  assumes "\<forall>b \<in> set quanta. length (fst b) = length (snd b)" and "0 < sz"
  shows "worklet_strategy sz quanta =
           Some (chunks_of sz (concat (map fst quanta)) (concat (map snd quanta)))"
    and "length (concat (map fst quanta)) = length (concat (map snd quanta))"
proof -
  have szp: "size_f (new_processor sz) = sz" using assms(2) by (simp add: new_processor_def Let_def)
  from process_all_new [OF assms(1), of sz]
  obtain p' where run: "process_all (new_processor sz) (map stereo quanta) =
      Some (p', chunks_of sz (concat (map fst quanta)) (concat (map snd quanta)))"
    and t: "tracks p' (concat (map fst quanta)) (concat (map snd quanta))"
    unfolding szp by blast
  from t show "length (concat (map fst quanta)) = length (concat (map snd quanta))"
    unfolding tracks_def by blast
  have id: "map port_onmessage out = out" for out
    by (induction out) (simp_all add: port_onmessage_def)
  show "worklet_strategy sz quanta =
           Some (chunks_of sz (concat (map fst quanta)) (concat (map snd quanta)))"
    unfolding worklet_strategy_def run using id by simp
qed

text \<open>
  Claim C9, as stated, fails: with the chunk size 3 the worklet sends a chunk of 3
  samples per channel, while the fallback cannot be created, since
  \<^verbatim>\<open>createScriptProcessor\<close> refuses the size.
\<close>

theorem strategies_emit_same_chunks_counterexample:
  "worklet_strategy (capture_bufferSize 3) [([1, 2], [4, 5]), ([3], [6 :: sample])] =
     Some [\<lparr>noSamples = 3, planar = [1, 2, 3, 4, 5, 6]\<rparr>] \<and>
   script_strategy 1024 (capture_bufferSize 3) [1, 2, 3] [4, 5, 6] = Inl IndexSizeError"
proof -
  have "worklet_strategy 3 [([1, 2], [4, 5]), ([3], [6 :: sample])] =
     Some (chunks_of 3 [1, 2, 3] [4, 5, 6])"
    using worklet_chunks(1) [of "[([1, 2], [4, 5]), ([3], [6 :: sample])]" 3] by simp
  moreover have "chunks_of 3 [1, 2, 3] [4, 5, 6 :: sample] =
      [\<lparr>noSamples = 3, planar = [1, 2, 3, 4, 5, 6]\<rparr>]"
    by (simp add: chunks_of_def chunks_from_def chunk_at_def)
  ultimately show ?thesis
    by (simp add: capture_bufferSize_def script_strategy_def createScriptProcessor_def
        valid_script_size_def)
qed

text \<open>
  Claim C9, amended. Both strategies are created with the same \<open>bufferSize\<close>. When it
  is a size that \<^verbatim>\<open>createScriptProcessor\<close> accepts (256, 512, \<dots>, 16384), the worklet,
  called with the stream in render quanta of any lengths, and the script node, whose
  input is the same stream, send the same sequence of \<^verbatim>\<open>audio-pcm-data\<close> messages. For
  any other size the fallback is not created: the call throws IndexSizeError.
\<close>

theorem strategies_emit_same_chunks:
  assumes "\<forall>b \<in> set quanta. length (fst b) = length (snd b)"
  shows "(valid_script_size (capture_bufferSize opt) \<longrightarrow>
            (\<exists>out. worklet_strategy (capture_bufferSize opt) quanta = Some out \<and>
               script_strategy impl (capture_bufferSize opt)
                 (concat (map fst quanta)) (concat (map snd quanta)) = Inr out)) \<and>
         (\<not> valid_script_size (capture_bufferSize opt) \<longrightarrow>
            script_strategy impl (capture_bufferSize opt) xs ys = Inl IndexSizeError)"
proof (intro conjI impI)
  let ?sz = "capture_bufferSize opt"
  have sz: "0 < ?sz" by (simp add: capture_bufferSize_def)
  {
    assume v: "valid_script_size ?sz"
    from worklet_chunks [OF assms sz]
    have w: "worklet_strategy ?sz quanta =
               Some (chunks_of ?sz (concat (map fst quanta)) (concat (map snd quanta)))"
      and len: "length (concat (map fst quanta)) = length (concat (map snd quanta))"
      by simp_all
    have "script_strategy impl ?sz (concat (map fst quanta)) (concat (map snd quanta)) =
            Inr (chunks_of ?sz (concat (map fst quanta)) (concat (map snd quanta)))"
      using v sz script_events_chunks [OF len, of ?sz]
      by (simp add: script_strategy_def createScriptProcessor_def)
    with w show "\<exists>out. worklet_strategy ?sz quanta = Some out \<and>
               script_strategy impl ?sz (concat (map fst quanta)) (concat (map snd quanta)) = Inr out"
      by blast
  }
  {
    assume "\<not> valid_script_size ?sz"
    with sz show "script_strategy impl ?sz xs ys = Inl IndexSizeError"
      by (simp add: script_strategy_def createScriptProcessor_def)
  }
qed

theorem strategies_emit_same_chunks_witness:
  "worklet_strategy (capture_bufferSize 256)
      [(replicate 100 1, replicate 100 2), (replicate 200 3, replicate 200 (4 :: sample))] =
     Some [\<lparr>noSamples = 256,
            planar = replicate 100 1 @ replicate 156 3 @ replicate 100 2 @ replicate 156 4\<rparr>] \<and>
   script_strategy 1024 (capture_bufferSize 256)
      (replicate 100 1 @ replicate 200 3) (replicate 100 2 @ replicate 200 (4 :: sample)) =
     Inr [\<lparr>noSamples = 256,
            planar = replicate 100 1 @ replicate 156 3 @ replicate 100 2 @ replicate 156 4\<rparr>] \<and>
   script_strategy 1024 (capture_bufferSize 3000) [] [] = Inl IndexSizeError"
proof -
  have s: "capture_bufferSize 256 = 256" "capture_bufferSize 3000 = 3000"
    by (simp_all add: capture_bufferSize_def)
  have e: "script_strategy 1024 256
      (replicate 100 1 @ replicate 200 3) (replicate 100 2 @ replicate 200 (4 :: sample)) =
     Inr [\<lparr>noSamples = 256,
            planar = replicate 100 1 @ replicate 156 3 @ replicate 100 2 @ replicate 156 4\<rparr>]"
    by (simp add: script_strategy_def createScriptProcessor_def valid_script_size_def
        audio_events_def onaudioprocess_def ta_set_def Let_def)
  from strategies_emit_same_chunks [of
      "[(replicate 100 1, replicate 100 2), (replicate 200 3, replicate 200 (4 :: sample))]"
      256 1024 "[]" "[]"]
    strategies_emit_same_chunks [of "[]" 3000 1024 "[]" "[]"]
  show ?thesis unfolding s using e by (simp add: valid_script_size_def)
qed

section \<open>JavaScript numbers: the binary exponent\<close>

lemma ilog2_bounds: "0 < x \<Longrightarrow> 2 powi (ilog2 x) \<le> x \<and> x < 2 powi (ilog2 x + 1)"
proof (induction x rule: ilog2.induct)
  case (1 x)
  show ?case
  proof (cases "2 \<le> x")
    case True
    with "1.prems" "1.IH"(1) have "2 powi (ilog2 (x / 2)) \<le> x / 2 \<and> x / 2 < 2 powi (ilog2 (x / 2) + 1)"
      by simp
    moreover have "ilog2 x = ilog2 (x / 2) + 1" using True "1.prems" by (subst ilog2.simps) simp
    ultimately show ?thesis by (simp add: power_int_add)
  next
    case False
    show ?thesis
    proof (cases "x < 1")
      case True
      with "1.prems" False "1.IH"(2)
      have "2 powi (ilog2 (x * 2)) \<le> x * 2 \<and> x * 2 < 2 powi (ilog2 (x * 2) + 1)"
        by simp
      moreover have "ilog2 x = ilog2 (x * 2) - 1" using True False "1.prems" by (subst ilog2.simps) simp
      ultimately show ?thesis by (simp add: power_int_add power_int_diff)
    next
      case nl: False
      then have "ilog2 x = 0" using False "1.prems" by (subst ilog2.simps) simp
      with nl False show ?thesis by simp
    qed
  qed
qed

section \<open>The NDI sender: queue bound, single-flight drain, stop\<close>

lemma length_remove_nth: "k < length xs \<Longrightarrow> length (remove_nth k xs) = length xs - 1"
  by (simp add: remove_nth_def)

lemma run_Nil [simp]: "run s [] = s"
  by (simp add: run_def)

lemma run_Cons [simp]: "run s (e # es) = run (step s e) es"
  by (simp add: run_def)

lemma run_snoc: "run s (es @ [e]) = step (run s es) e"
  by (simp add: run_def)

lemma inv_new: "ndi_inv (new_ndi g)"
  by (simp add: ndi_inv_def new_ndi_def)

lemma inv_stop: "ndi_inv s \<Longrightarrow> ndi_inv (stop s)"
  by (auto simp: ndi_inv_def stop_def Let_def split: option.splits)

lemma inv_drain_continue:
  assumes "length (audioQueue s) \<le> 8" "drains s = []" "audioDraining s"
    "running s \<longleftrightarrow> sender s \<noteq> None" "\<not> running s \<longrightarrow> audioQueue s = []"
    "\<forall>h. sender s = Some h \<longrightarrow> h < nextHandle s"
  shows "ndi_inv (drain_continue s)"
  using assms by (auto simp: ndi_inv_def drain_continue_def split: list.splits option.splits)

lemma inv_pushAudio: "ndi_inv s \<Longrightarrow> ndi_inv (pushAudio s c)"
proof -
  assume i: "ndi_inv s"
  show ?thesis
  proof (cases "\<not> running s \<or> \<not> audioEnabled s \<or> sender s = None")
    case True
    then show ?thesis using i by (simp add: pushAudio_def)
  next
    case False
    then obtain h where act: "running s" "audioEnabled s" "sender s = Some h" by auto
    let ?q = "(if length (audioQueue s) \<ge> 8 then tl (audioQueue s) else audioQueue s) @ [c]"
    have lq: "length ?q \<le> 8" using i by (auto simp: ndi_inv_def)
    show ?thesis
    proof (cases "audioDraining s")
      case True
      then have "pushAudio s c = s\<lparr>audioQueue := ?q\<rparr>"
        using act by (simp add: pushAudio_def Let_def)
      then show ?thesis using i lq True act by (simp add: ndi_inv_def)
    next
      case nd: False
      then have e: "pushAudio s c = drain_continue (s\<lparr>audioQueue := ?q, audioDraining := True\<rparr>)"
        using act by (simp add: pushAudio_def Let_def drainAudioQueue_def)
      show ?thesis unfolding e
        by (rule inv_drain_continue) (use i lq nd act in \<open>auto simp: ndi_inv_def\<close>)
    qed
  qed
qed

lemma inv_audio_settled: "ndi_inv s \<Longrightarrow> ndi_inv (audio_settled s k ok)"
proof -
  assume i: "ndi_inv s"
  show ?thesis
  proof (cases "k < length (drains s)")
    case False
    then show ?thesis using i by (simp add: audio_settled_def)
  next
    case True
    with i have d: "remove_nth k (drains s) = []"
      using length_remove_nth [OF True] by (simp add: ndi_inv_def)
    have e: "audio_settled s k ok = drain_continue (s\<lparr>drains := []\<rparr>)"
      using True d by (simp add: audio_settled_def)
    show ?thesis unfolding e
      by (rule inv_drain_continue) (use i True in \<open>auto simp: ndi_inv_def\<close>)
  qed
qed

lemma inv_rearm: "ndi_inv s \<Longrightarrow> ndi_inv (rearm s t0 now)"
  by (simp add: ndi_inv_def rearm_def Let_def)

lemma inv_loop_enter: "ndi_inv s \<Longrightarrow> ndi_inv (loop_enter s d now)"
  using inv_stop [of s] by (simp add: loop_enter_def) (simp add: ndi_inv_def)

lemma inv_loops_upd: "ndi_inv s \<Longrightarrow> ndi_inv (s\<lparr>loops := l\<rparr>)"
  by (simp add: ndi_inv_def)

lemma inv_timers_upd: "ndi_inv s \<Longrightarrow> ndi_inv (s\<lparr>timers := l\<rparr>)"
  by (simp add: ndi_inv_def)

lemma inv_starts_upd: "ndi_inv s \<Longrightarrow> ndi_inv (s\<lparr>starts := l\<rparr>)"
  by (simp add: ndi_inv_def)

lemma inv_calls_upd: "ndi_inv s \<Longrightarrow> ndi_inv (s\<lparr>calls := l\<rparr>)"
  by (simp add: ndi_inv_def)

lemma inv_capture_settled: "ndi_inv s \<Longrightarrow> ndi_inv (capture_settled s k ok now)"
  by (auto simp: capture_settled_def Let_def inv_rearm inv_loops_upd inv_calls_upd
      split: loop_task.splits option.splits)

lemma inv_video_settled: "ndi_inv s \<Longrightarrow> ndi_inv (video_settled s k ok now)"
  by (auto simp: video_settled_def inv_rearm inv_loops_upd split: loop_task.splits)

lemma inv_timer_fired: "ndi_inv s \<Longrightarrow> ndi_inv (timer_fired s t d now)"
  by (simp add: timer_fired_def inv_loop_enter inv_timers_upd)

lemma inv_start_configure: "ndi_inv s \<Longrightarrow> ndi_inv (start_configure s f w h ae)"
  by (simp add: ndi_inv_def start_configure_def)

lemma inv_start: "ndi_inv s \<Longrightarrow> start s n f w h ae = Inr s' \<Longrightarrow> ndi_inv s'"
  using inv_stop [of s]
  by (auto simp: start_def inv_start_configure inv_starts_upd split: if_splits)

lemma inv_start_resumed: "ndi_inv s \<Longrightarrow> ndi_inv (start_resumed s k)"
  by (auto simp: start_resumed_def inv_start_configure inv_starts_upd split: start_task.splits)

lemma inv_session: "ndi_inv s \<Longrightarrow>
   ndi_inv (s\<lparr>sender := Some (nextHandle s), nextHandle := Suc (nextHandle s),
              audioQueue := [], running := True\<rparr>)"
  by (simp add: ndi_inv_def)

lemma inv_sender_settled: "ndi_inv s \<Longrightarrow> ndi_inv (sender_settled s k ok d now)"
proof -
  assume i: "ndi_inv s"
  have "ndi_inv (loop_enter (s\<lparr>starts := l, sender := Some (nextHandle s),
           nextHandle := Suc (nextHandle s), audioQueue := [], running := True\<rparr>) d now)" for l
    by (rule inv_loop_enter) (use i in \<open>simp add: ndi_inv_def\<close>)
  then show ?thesis using i
    by (auto simp: sender_settled_def Let_def inv_starts_upd split: start_task.splits)
qed

lemma inv_step: "ndi_inv s \<Longrightarrow> ndi_inv (step s e)"
  by (cases e)
    (auto simp: inv_stop inv_pushAudio inv_audio_settled inv_capture_settled inv_video_settled
       inv_timer_fired inv_start_resumed inv_sender_settled
       dest: inv_start split: sum.splits)

lemma inv_run: "ndi_inv s \<Longrightarrow> ndi_inv (run s es)"
  by (induction es arbitrary: s) (simp_all add: inv_step)


lemma reach_inv: "ndi_inv (run (new_ndi g) es)"
  by (rule inv_run [OF inv_new])

lemma push_full_queue:
  assumes "ndi_inv s" "running s" "audioEnabled s" "length (audioQueue s) = 8"
  shows "audioQueue (pushAudio s c) = tl (audioQueue s) @ [c]"
proof -
  from assms have d: "audioDraining s" and sn: "sender s \<noteq> None"
    by (auto simp: ndi_inv_def)
  then obtain h where "sender s = Some h" by auto
  with assms d show ?thesis by (simp add: pushAudio_def Let_def)
qed

lemma push_active_draining:
  "running s \<Longrightarrow> audioEnabled s \<Longrightarrow> sender s = Some h \<Longrightarrow> audioDraining s \<Longrightarrow>
   pushAudio s c =
     s\<lparr>audioQueue := (if length (audioQueue s) \<ge> 8 then tl (audioQueue s) else audioQueue s) @ [c]\<rparr>"
  by (simp add: pushAudio_def Let_def)

lemma push_active_idle:
  "running s \<Longrightarrow> audioEnabled s \<Longrightarrow> sender s = Some h \<Longrightarrow> \<not> audioDraining s \<Longrightarrow>
   audioQueue s = [] \<Longrightarrow>
   pushAudio s c =
     s\<lparr>audioQueue := [], audioDraining := True, calls := calls s @ [AudioCall h c],
       drains := drains s @ [c]\<rparr>"
  by (simp add: pushAudio_def Let_def drainAudioQueue_def drain_continue_def)

lemma nine_pushes:
  assumes "running s" "audioEnabled s" "sender s = Some h" "audioQueue s = []"
  shows "audioQueue (run s (map PushAudio [c1, c2, c3, c4, c5, c6, c7, c8, c9])) =
         [c2, c3, c4, c5, c6, c7, c8, c9]"
proof (cases "audioDraining s")
  case True
  with assms show ?thesis by (simp add: push_active_draining)
next
  case False
  with assms show ?thesis by (simp add: push_active_idle push_active_draining)
qed

text \<open>
  Claim C2. After any sequence of events on a new NdiManager (pushes among them) the audio
  queue holds at most 8 chunks. A push that finds 8 chunks queued on a running,
  audio-enabled stream drops the head and appends the new chunk at the tail. Nine pushes
  in a row on a running, audio-enabled stream whose queue is empty leave the queue
  holding chunks 2 to 9: when no drain was active the first push hands chunk 1 to the
  sender at once, when one was active the ninth push evicts chunk 1.
\<close>

theorem audio_queue_bounded_drop_oldest:
  "length (audioQueue (run (new_ndi g) es)) \<le> 8 \<and>
   (running (run (new_ndi g) es) \<and> audioEnabled (run (new_ndi g) es) \<and>
    length (audioQueue (run (new_ndi g) es)) = 8 \<longrightarrow>
      audioQueue (pushAudio (run (new_ndi g) es) c) = tl (audioQueue (run (new_ndi g) es)) @ [c]) \<and>
   (running s \<and> audioEnabled s \<and> sender s \<noteq> None \<and> audioQueue s = [] \<longrightarrow>
      audioQueue (run s (map PushAudio [c1, c2, c3, c4, c5, c6, c7, c8, c9])) =
        [c2, c3, c4, c5, c6, c7, c8, c9])"
proof (intro conjI impI)
  show "length (audioQueue (run (new_ndi g) es)) \<le> 8"
    using reach_inv [of g es] by (simp add: ndi_inv_def)
next
  assume "running (run (new_ndi g) es) \<and> audioEnabled (run (new_ndi g) es) \<and>
    length (audioQueue (run (new_ndi g) es)) = 8"
  then show "audioQueue (pushAudio (run (new_ndi g) es) c) =
      tl (audioQueue (run (new_ndi g) es)) @ [c]"
    using push_full_queue [OF reach_inv] by blast
next
  assume "running s \<and> audioEnabled s \<and> sender s \<noteq> None \<and> audioQueue s = []"
  then show "audioQueue (run s (map PushAudio [c1, c2, c3, c4, c5, c6, c7, c8, c9])) =
        [c2, c3, c4, c5, c6, c7, c8, c9]"
    using nine_pushes [of s] by auto
qed

lemmas ndi_eval = run_def new_ndi_def start_def start_configure_def sender_settled_def
  loop_enter_def remove_nth_def pushAudio_def drainAudioQueue_def drain_continue_def Let_def
  stop_def audio_settled_def capture_settled_def video_settled_def rearm_def timer_fired_def
  start_resumed_def falsy_def

theorem audio_queue_bounded_drop_oldest_witness:
  "audioQueue (pushAudio (run (new_ndi True)
      ([CallStart ''cam'' (Dbl 30) 1280 720 True, SenderSettled 0 True False (Dbl 0)] @
       map PushAudio [\<lparr>data = [1], nSamples = 4096\<rparr>, \<lparr>data = [2], nSamples = 4096\<rparr>,
         \<lparr>data = [3], nSamples = 4096\<rparr>, \<lparr>data = [4], nSamples = 4096\<rparr>,
         \<lparr>data = [5], nSamples = 4096\<rparr>, \<lparr>data = [6], nSamples = 4096\<rparr>,
         \<lparr>data = [7], nSamples = 4096\<rparr>, \<lparr>data = [8], nSamples = 4096\<rparr>,
         \<lparr>data = [9], nSamples = 4096\<rparr>])) \<lparr>data = [10], nSamples = 4096\<rparr>) =
     [\<lparr>data = [3], nSamples = 4096\<rparr>, \<lparr>data = [4], nSamples = 4096\<rparr>,
      \<lparr>data = [5], nSamples = 4096\<rparr>, \<lparr>data = [6], nSamples = 4096\<rparr>,
      \<lparr>data = [7], nSamples = 4096\<rparr>, \<lparr>data = [8], nSamples = 4096\<rparr>,
      \<lparr>data = [9], nSamples = 4096\<rparr>, \<lparr>data = [10], nSamples = 4096\<rparr>] \<and>
   audioQueue (run (run (new_ndi True) [CallStart ''cam'' (Dbl 30) 1280 720 True, SenderSettled 0 True False (Dbl 0)])
      (map PushAudio [\<lparr>data = [1], nSamples = 4096\<rparr>, \<lparr>data = [2], nSamples = 4096\<rparr>,
         \<lparr>data = [3], nSamples = 4096\<rparr>, \<lparr>data = [4], nSamples = 4096\<rparr>,
         \<lparr>data = [5], nSamples = 4096\<rparr>, \<lparr>data = [6], nSamples = 4096\<rparr>,
         \<lparr>data = [7], nSamples = 4096\<rparr>, \<lparr>data = [8], nSamples = 4096\<rparr>,
         \<lparr>data = [9], nSamples = 4096\<rparr>])) =
     [\<lparr>data = [2], nSamples = 4096\<rparr>, \<lparr>data = [3], nSamples = 4096\<rparr>,
      \<lparr>data = [4], nSamples = 4096\<rparr>, \<lparr>data = [5], nSamples = 4096\<rparr>,
      \<lparr>data = [6], nSamples = 4096\<rparr>, \<lparr>data = [7], nSamples = 4096\<rparr>,
      \<lparr>data = [8], nSamples = 4096\<rparr>, \<lparr>data = [9], nSamples = 4096\<rparr>]"
  using audio_queue_bounded_drop_oldest [of True
      "[CallStart ''cam'' (Dbl 30) 1280 720 True, SenderSettled 0 True False (Dbl 0)] @
       map PushAudio [\<lparr>data = [1], nSamples = 4096\<rparr>, \<lparr>data = [2], nSamples = 4096\<rparr>,
         \<lparr>data = [3], nSamples = 4096\<rparr>, \<lparr>data = [4], nSamples = 4096\<rparr>,
         \<lparr>data = [5], nSamples = 4096\<rparr>, \<lparr>data = [6], nSamples = 4096\<rparr>,
         \<lparr>data = [7], nSamples = 4096\<rparr>, \<lparr>data = [8], nSamples = 4096\<rparr>,
         \<lparr>data = [9], nSamples = 4096\<rparr>]"
      "\<lparr>data = [10], nSamples = 4096\<rparr>"
      "run (new_ndi True) [CallStart ''cam'' (Dbl 30) 1280 720 True, SenderSettled 0 True False (Dbl 0)]"
      "\<lparr>data = [1], nSamples = 4096\<rparr>" "\<lparr>data = [2], nSamples = 4096\<rparr>"
      "\<lparr>data = [3], nSamples = 4096\<rparr>" "\<lparr>data = [4], nSamples = 4096\<rparr>"
      "\<lparr>data = [5], nSamples = 4096\<rparr>" "\<lparr>data = [6], nSamples = 4096\<rparr>"
      "\<lparr>data = [7], nSamples = 4096\<rparr>" "\<lparr>data = [8], nSamples = 4096\<rparr>"
      "\<lparr>data = [9], nSamples = 4096\<rparr>"]
  by (simp add: ndi_eval)


lemma audio_sent_append: "audio_sent (xs @ ys) = audio_sent xs @ audio_sent ys"
  by (induction xs rule: audio_sent.induct) simp_all

lemma pushes_append: "pushes (xs @ ys) = pushes xs @ pushes ys"
  by (induction xs rule: pushes.induct) simp_all

lemma fifo_same:
  "audio_sent (calls s') = audio_sent (calls s) \<Longrightarrow> subseq (audioQueue s') (audioQueue s @ P) \<Longrightarrow>
   fifo_rel s s' P"
  unfolding fifo_rel_def by (intro exI [of _ "[]"]) simp

lemma fifo_refl: "fifo_rel s s P"
  by (rule fifo_same) (simp_all add: subseq_rev_drop_many)

lemma fifo_trans:
  assumes "fifo_rel s s1 P1" "fifo_rel s1 s2 P2"
  shows "fifo_rel s s2 (P1 @ P2)"
proof -
  from assms(1) obtain X1 where a1: "audio_sent (calls s1) = audio_sent (calls s) @ X1"
    and b1: "subseq (X1 @ audioQueue s1) (audioQueue s @ P1)"
    unfolding fifo_rel_def by blast
  from assms(2) obtain X2 where a2: "audio_sent (calls s2) = audio_sent (calls s1) @ X2"
    and b2: "subseq (X2 @ audioQueue s2) (audioQueue s1 @ P2)"
    unfolding fifo_rel_def by blast
  have c1: "subseq (X1 @ X2 @ audioQueue s2) (X1 @ audioQueue s1 @ P2)"
    using b2 by (simp add: subseq_append')
  have c2: "subseq (X1 @ audioQueue s1 @ P2) (audioQueue s @ P1 @ P2)"
    using list_emb_append_mono [OF b1 subseq_order.order_refl [of P2]] by simp
  have "subseq ((X1 @ X2) @ audioQueue s2) (audioQueue s @ P1 @ P2)"
    using subseq_order.order_trans [OF c1 c2] by simp
  with a1 a2 show ?thesis unfolding fifo_rel_def by (intro exI [of _ "X1 @ X2"]) simp
qed

lemma fifo_stop: "fifo_rel s (stop s) []"
  by (rule fifo_same) (auto simp: stop_def Let_def audio_sent_append split: option.splits)

lemma fifo_drain_continue: "fifo_rel s (drain_continue s) []"
proof (cases "\<exists>c q h. audioQueue s = c # q \<and> running s \<and> sender s = Some h")
  case True
  then obtain c q h where "audioQueue s = c # q" "running s" "sender s = Some h" by blast
  then show ?thesis
    unfolding fifo_rel_def
    by (intro exI [of _ "[c]"]) (simp add: drain_continue_def audio_sent_append)
next
  case False
  then have "audio_sent (calls (drain_continue s)) = audio_sent (calls s)"
    "audioQueue (drain_continue s) = audioQueue s"
    by (auto simp: drain_continue_def split: list.splits option.splits)
  then show ?thesis by (intro fifo_same) simp_all
qed

lemma fifo_drain_flag: "fifo_rel s s' P \<Longrightarrow> fifo_rel (s\<lparr>audioDraining := b\<rparr>) s' P"
  by (simp add: fifo_rel_def)

lemma fifo_pushAudio: "fifo_rel s (pushAudio s c) [c]"
proof (cases "\<not> running s \<or> \<not> audioEnabled s \<or> sender s = None")
  case True
  then show ?thesis by (intro fifo_same) (auto simp: pushAudio_def)
next
  case False
  then obtain h where act: "running s" "audioEnabled s" "sender s = Some h" by auto
  let ?q = "(if length (audioQueue s) \<ge> 8 then tl (audioQueue s) else audioQueue s) @ [c]"
  have sub: "subseq ?q (audioQueue s @ [c])"
    by (cases "audioQueue s") (auto intro: subseq_Cons')
  have one: "fifo_rel s (s\<lparr>audioQueue := ?q\<rparr>) [c]"
    by (rule fifo_same) (use sub in simp_all)
  show ?thesis
  proof (cases "audioDraining s")
    case True
    with act have "pushAudio s c = s\<lparr>audioQueue := ?q\<rparr>" by (simp add: pushAudio_def Let_def)
    with one show ?thesis by simp
  next
    case nd: False
    with act have e: "pushAudio s c = drain_continue (s\<lparr>audioQueue := ?q, audioDraining := True\<rparr>)"
      by (simp add: pushAudio_def Let_def drainAudioQueue_def)
    have "fifo_rel s (s\<lparr>audioQueue := ?q, audioDraining := True\<rparr>) [c]"
      by (rule fifo_same) (use sub in simp_all)
    from fifo_trans [OF this fifo_drain_continue] show ?thesis unfolding e by simp
  qed
qed

lemma fifo_audio_settled: "fifo_rel s (audio_settled s k ok) []"
proof (cases "k < length (drains s)")
  case True
  have "fifo_rel s (s\<lparr>drains := remove_nth k (drains s)\<rparr>) []" by (rule fifo_same) simp_all
  from fifo_trans [OF this fifo_drain_continue] True show ?thesis by (simp add: audio_settled_def)
next
  case False
  then show ?thesis by (simp add: audio_settled_def fifo_refl)
qed

lemma fifo_loop_enter: "fifo_rel s (loop_enter s d now) []"
  by (auto simp: loop_enter_def fifo_stop fifo_refl intro: fifo_same)

lemma fifo_rearm: "fifo_rel s (rearm s t0 now) []"
  by (rule fifo_same) (simp_all add: rearm_def Let_def)

lemma fifo_capture_settled: "fifo_rel s (capture_settled s k ok now) []"
  by (rule fifo_same)
    (auto simp: capture_settled_def rearm_def Let_def audio_sent_append
       split: loop_task.splits option.splits)

lemma fifo_video_settled: "fifo_rel s (video_settled s k ok now) []"
  by (rule fifo_same)
    (auto simp: video_settled_def rearm_def Let_def split: loop_task.splits)

lemma fifo_timer_fired: "fifo_rel s (timer_fired s t d now) []"
proof -
  have "fifo_rel s (s\<lparr>timers := filter (\<lambda>e. fst e \<noteq> t) (timers s)\<rparr>) []"
    by (rule fifo_same) simp_all
  from fifo_trans [OF this fifo_loop_enter] show ?thesis
    by (simp add: timer_fired_def fifo_refl)
qed

lemma fifo_start: "start s n f w h ae = Inr s' \<Longrightarrow> fifo_rel s s' []"
  using fifo_stop [of s]
  by (auto simp: start_def start_configure_def fifo_rel_def split: if_splits)

lemma fifo_start_resumed: "fifo_rel s (start_resumed s k) []"
  by (rule fifo_same) (auto simp: start_resumed_def start_configure_def split: start_task.splits)

lemma fifo_sender_settled: "fifo_rel s (sender_settled s k ok d now) []"
proof -
  have "fifo_rel s (s\<lparr>starts := l, sender := Some (nextHandle s),
           nextHandle := Suc (nextHandle s), audioQueue := [], running := True\<rparr>) []" for l
    by (rule fifo_same) simp_all
  from fifo_trans [OF this fifo_loop_enter]
  have "fifo_rel s (loop_enter (s\<lparr>starts := l, sender := Some (nextHandle s),
           nextHandle := Suc (nextHandle s), audioQueue := [], running := True\<rparr>) d now) []" for l
    by simp
  moreover have "fifo_rel s (s\<lparr>starts := l\<rparr>) []" for l by (rule fifo_same) simp_all
  ultimately show ?thesis
    by (auto simp: sender_settled_def Let_def fifo_refl split: start_task.splits)
qed

lemma fifo_step: "fifo_rel s (step s e) (pushes [e])"
  by (cases e)
    (auto simp: fifo_stop fifo_pushAudio fifo_audio_settled fifo_capture_settled
       fifo_video_settled fifo_timer_fired fifo_start_resumed fifo_sender_settled fifo_refl
       dest: fifo_start split: sum.splits)

lemma fifo_run: "fifo_rel s (run s es) (pushes es)"
proof (induction es arbitrary: s)
  case Nil
  show ?case by (simp add: fifo_refl)
next
  case (Cons e es)
  from fifo_trans [OF fifo_step Cons.IH, of s e] show ?case
    using pushes_append [of "[e]" es] by simp
qed


lemma stop_fields:
  "running (stop s) = False" "sender (stop s) = None" "timeout (stop s) = None"
  "audioQueue (stop s) = []" "nextHandle (stop s) = nextHandle s"
  "audio_sent (calls (stop s)) = audio_sent (calls s)"
  by (auto simp: stop_def Let_def audio_sent_append split: option.splits)



lemma idle_rearm: "idle s \<Longrightarrow> rearm s t0 now = s"
  by (simp add: idle_def rearm_def)







lemma retired_rearm:
  "retired h s \<Longrightarrow> retired h (rearm s t0 now) \<and> calls (rearm s t0 now) = calls s"
  by (simp add: retired_def rearm_def Let_def)










lemma subseq_append_left: "subseq (xs @ ys) zs \<Longrightarrow> subseq xs zs"
  using subseq_order.order_trans [of xs "xs @ ys" zs] by (simp add: subseq_rev_drop_many)

lemma fifo_from_new: "subseq (audio_sent (calls (run (new_ndi g) es))) (pushes es)"
proof -
  from fifo_run [of "new_ndi g" es]
  have "subseq (audio_sent (calls (run (new_ndi g) es)) @ audioQueue (run (new_ndi g) es)) (pushes es)"
    unfolding fifo_rel_def by (auto simp: new_ndi_def)
  then show ?thesis by (rule subseq_append_left)
qed

lemma reach_drain_step:
  assumes i: "ndi_inv s" and d: "audioDraining s" and q: "audioQueue s = c # q"
  shows "\<exists>h. sender s = Some h \<and> calls (audio_settled s 0 ok) = calls s @ [AudioCall h c]"
    and "audioQueue (audio_settled s 0 ok) = q" and "drains (audio_settled s 0 ok) = [c]"
proof -
  from i d have l: "length (drains s) = 1" by (cases "drains s") (auto simp: ndi_inv_def)
  then have r: "remove_nth 0 (drains s) = []" by (cases "drains s") (simp_all add: remove_nth_def)
  from i q have run: "running s" by (auto simp: ndi_inv_def)
  with i obtain h where h: "sender s = Some h" by (auto simp: ndi_inv_def)
  have e: "audio_settled s 0 ok =
      s\<lparr>drains := [c], audioQueue := q, calls := calls s @ [AudioCall h c]\<rparr>"
    using l r q run h by (simp add: audio_settled_def drain_continue_def)
  show "\<exists>h. sender s = Some h \<and> calls (audio_settled s 0 ok) = calls s @ [AudioCall h c]"
    using h e by simp
  show "audioQueue (audio_settled s 0 ok) = q" "drains (audio_settled s 0 ok) = [c]"
    using e by simp_all
qed

lemma reach_drain_exit:
  assumes i: "ndi_inv s" and d: "audioDraining s" and q: "audioQueue s = []"
  shows "audio_settled s 0 ok = s\<lparr>drains := [], audioDraining := False\<rparr>"
proof -
  from i d have l: "length (drains s) = 1" by (cases "drains s") (auto simp: ndi_inv_def)
  then have r: "remove_nth 0 (drains s) = []" by (cases "drains s") (simp_all add: remove_nth_def)
  show ?thesis using l r q by (simp add: audio_settled_def drain_continue_def)
qed

lemma reach_restart:
  assumes i: "ndi_inv s" and d: "audioDraining s" and q: "audioQueue s = []"
    and a: "running s" "audioEnabled s"
  shows "audioDraining (pushAudio (audio_settled s 0 ok) c')"
    and "drains (pushAudio (audio_settled s 0 ok) c') = [c']"
proof -
  from i a obtain h where h: "sender s = Some h" by (auto simp: ndi_inv_def)
  have "pushAudio (s\<lparr>drains := [], audioDraining := False\<rparr>) c' =
        s\<lparr>drains := [], audioDraining := False, audioQueue := [], audioDraining := True,
          calls := calls s @ [AudioCall h c'], drains := [] @ [c']\<rparr>"
    using push_active_idle [of "s\<lparr>drains := [], audioDraining := False\<rparr>" h c'] a h q by simp
  then show "audioDraining (pushAudio (audio_settled s 0 ok) c')"
    and "drains (pushAudio (audio_settled s 0 ok) c') = [c']"
    unfolding reach_drain_exit [OF i d q] by simp_all
qed

text \<open>
  Claim C3. In every reachable state at most one drain is suspended on an audio send,
  and \<^verbatim>\<open>_audioDraining\<close> is set exactly then, so a push starts a drain only when none
  is active and two audio sends are never in flight together. The chunks sent are a
  subsequence of the chunks pushed, in push order. When the send in flight settles the
  drain takes the head of the queue and sends it next; when the queue is empty it ends
  and clears the flag, and the next push on the running, audio-enabled stream starts a
  drain again.
\<close>

theorem audio_drain_single_flight_fifo:
  fixes g es
  defines "S \<equiv> run (new_ndi g) es"
  shows "length (drains S) \<le> 1 \<and> (audioDraining S \<longleftrightarrow> drains S \<noteq> []) \<and>
     subseq (audio_sent (calls S)) (pushes es) \<and>
     (audioDraining S \<and> audioQueue S = c # q \<longrightarrow>
        (\<exists>h. sender S = Some h \<and> calls (audio_settled S 0 ok) = calls S @ [AudioCall h c]) \<and>
        audioQueue (audio_settled S 0 ok) = q \<and> drains (audio_settled S 0 ok) = [c]) \<and>
     (audioDraining S \<and> audioQueue S = [] \<longrightarrow>
        \<not> audioDraining (audio_settled S 0 ok) \<and> drains (audio_settled S 0 ok) = [] \<and>
        calls (audio_settled S 0 ok) = calls S \<and>
        (running S \<and> audioEnabled S \<longrightarrow>
           audioDraining (pushAudio (audio_settled S 0 ok) c') \<and>
           drains (pushAudio (audio_settled S 0 ok) c') = [c']))"
proof -
  have i: "ndi_inv S" unfolding S_def by (rule reach_inv)
  have 1: "length (drains S) \<le> 1" "audioDraining S \<longleftrightarrow> drains S \<noteq> []"
    using i by (simp_all add: ndi_inv_def)
  have 2: "subseq (audio_sent (calls S)) (pushes es)"
    unfolding S_def by (rule fifo_from_new)
  show ?thesis
    using 1 2 reach_drain_step [OF i] reach_drain_exit [OF i] reach_restart [OF i]
    by simp
qed


theorem audio_drain_single_flight_fifo_witness:
  "calls (audio_settled (run (new_ndi True)
       [CallStart ''cam'' (Dbl 30) 1280 720 True, SenderSettled 0 True False (Dbl 0),
        PushAudio \<lparr>data = [1], nSamples = 4096\<rparr>, PushAudio \<lparr>data = [2], nSamples = 4096\<rparr>]) 0 True) =
     [AudioCall 0 \<lparr>data = [1], nSamples = 4096\<rparr>, AudioCall 0 \<lparr>data = [2], nSamples = 4096\<rparr>] \<and>
   drains (audio_settled (run (new_ndi True)
       [CallStart ''cam'' (Dbl 30) 1280 720 True, SenderSettled 0 True False (Dbl 0),
        PushAudio \<lparr>data = [1], nSamples = 4096\<rparr>, PushAudio \<lparr>data = [2], nSamples = 4096\<rparr>]) 0 True) =
     [\<lparr>data = [2], nSamples = 4096\<rparr>] \<and>
   \<not> audioDraining (audio_settled (run (new_ndi True)
       [CallStart ''cam'' (Dbl 30) 1280 720 True, SenderSettled 0 True False (Dbl 0),
        PushAudio \<lparr>data = [1], nSamples = 4096\<rparr>]) 0 True) \<and>
   drains (pushAudio (audio_settled (run (new_ndi True)
       [CallStart ''cam'' (Dbl 30) 1280 720 True, SenderSettled 0 True False (Dbl 0),
        PushAudio \<lparr>data = [1], nSamples = 4096\<rparr>]) 0 True) \<lparr>data = [3], nSamples = 4096\<rparr>) =
     [\<lparr>data = [3], nSamples = 4096\<rparr>]"
  using audio_drain_single_flight_fifo [where g = True and ok = True
      and es = "[CallStart ''cam'' (Dbl 30) 1280 720 True, SenderSettled 0 True False (Dbl 0),
        PushAudio \<lparr>data = [1], nSamples = 4096\<rparr>, PushAudio \<lparr>data = [2], nSamples = 4096\<rparr>]"
      and c = "\<lparr>data = [2], nSamples = 4096\<rparr>" and q = "[]"]
    audio_drain_single_flight_fifo [where g = True and ok = True
      and es = "[CallStart ''cam'' (Dbl 30) 1280 720 True, SenderSettled 0 True False (Dbl 0),
        PushAudio \<lparr>data = [1], nSamples = 4096\<rparr>]"
      and c' = "\<lparr>data = [3], nSamples = 4096\<rparr>"]
  by (simp add: ndi_eval)

text \<open>
  Claim C5. An iteration that began at \<open>t0\<close> and reaches its end at \<open>now\<close> on a running
  stream (after the video send settled, or after a failed capture) arms one timer whose
  delay is \<^verbatim>\<open>Math.max(1, 1000 / fps - (now - t0))\<close> milliseconds, each operation being the
  binary64 operation of JavaScript: the floor is 1.
\<close>

theorem rearm_delay:
  "(k < length (loops s) \<and> loops s ! k = AwaitVideo t0 \<and> running s \<longrightarrow>
      timers (video_settled s k ok now) =
        timers s @ [(nextTimer s, dmax (Dbl 1) (dsub (ddiv (Dbl 1000) (fps s)) (dsub now t0)))] \<and>
      timeout (video_settled s k ok now) = Some (nextTimer s)) \<and>
   (k < length (loops s) \<and> loops s ! k = AwaitCapture t0 \<and> running s \<longrightarrow>
      timers (capture_settled s k False now) =
        timers s @ [(nextTimer s, dmax (Dbl 1) (dsub (ddiv (Dbl 1000) (fps s)) (dsub now t0)))] \<and>
      timeout (capture_settled s k False now) = Some (nextTimer s))"
  by (simp add: video_settled_def capture_settled_def rearm_def Let_def)

lemmas double_eval = ddiv_def dsub_def dmax_def rnd_def rne_def ilog2.simps power_int_minus
  signed_inf_def signed_zero_def

theorem rearm_delay_witness:
  "timers (video_settled (run (new_ndi True)
       [CallStart ''cam'' (Dbl 30) 1280 720 False, SenderSettled 0 True False (Dbl 100),
        CaptureSettled 0 True (Dbl 104)]) 0 True (Dbl 110)) =
     [(0, Dbl (3283874728290987 / 2 ^ 47))] \<and>
   timers (capture_settled (run (new_ndi True)
       [CallStart ''cam'' (Dbl 60) 1280 720 False, SenderSettled 0 True False (Dbl 100)])
       0 False (Dbl 140)) = [(0, Dbl 1)]"
  using rearm_delay [of 0 "run (new_ndi True)
       [CallStart ''cam'' (Dbl 30) 1280 720 False, SenderSettled 0 True False (Dbl 100),
        CaptureSettled 0 True (Dbl 104)]" "Dbl 100" True "Dbl 110"]
    rearm_delay [of 0 "run (new_ndi True)
       [CallStart ''cam'' (Dbl 60) 1280 720 False, SenderSettled 0 True False (Dbl 100)]"
       "Dbl 100" True "Dbl 140"]
  by (simp add: ndi_eval double_eval)

lemma sent_after_stop:
  "\<exists>X. audio_sent (calls (run (stop s) es)) = audio_sent (calls s) @ X \<and> subseq X (pushes es)"
proof -
  from fifo_run [of "stop s" es] obtain X where
    "audio_sent (calls (run (stop s) es)) = audio_sent (calls (stop s)) @ X"
    "subseq (X @ audioQueue (run (stop s) es)) (audioQueue (stop s) @ pushes es)"
    unfolding fifo_rel_def by blast
  then have "audio_sent (calls (run (stop s) es)) = audio_sent (calls s) @ X" "subseq X (pushes es)"
    using subseq_append_left [of X "audioQueue (run (stop s) es)" "pushes es"]
    by (simp_all add: stop_fields)
  then show ?thesis by blast
qed

lemma session_starts_empty:
  "k < length (starts s) \<Longrightarrow> starts s ! k = AwaitSender \<Longrightarrow>
   audioQueue (sender_settled s k True d now) = []"
  by (simp add: sender_settled_def Let_def loop_enter_def stop_fields)

text \<open>
  Claim C10. \<^verbatim>\<open>stop()\<close> leaves the queue empty, and every chunk sent afterwards was
  pushed afterwards: the chunks that waited in the queue are not flushed to the sender.
  A session begins (\<^verbatim>\<open>grandi.send\<close> resolved inside \<^verbatim>\<open>start\<close>) with an empty queue.
\<close>

theorem stop_discards_queue:
  "audioQueue (stop s) = [] \<and>
   (\<exists>X. audio_sent (calls (run (stop s) es)) = audio_sent (calls s) @ X \<and> subseq X (pushes es)) \<and>
   (k < length (starts s) \<and> starts s ! k = AwaitSender \<longrightarrow>
      audioQueue (sender_settled s k True d now) = [])"
  using sent_after_stop [of s es] session_starts_empty [of k s d now]
  by (simp add: stop_fields)

theorem stop_discards_queue_witness:
  "audioQueue (run (new_ndi True)
       [CallStart ''cam'' (Dbl 30) 1280 720 True, SenderSettled 0 True False (Dbl 0),
        PushAudio \<lparr>data = [1], nSamples = 4096\<rparr>, PushAudio \<lparr>data = [2], nSamples = 4096\<rparr>,
        PushAudio \<lparr>data = [3], nSamples = 4096\<rparr>]) =
     [\<lparr>data = [2], nSamples = 4096\<rparr>, \<lparr>data = [3], nSamples = 4096\<rparr>] \<and>
   audio_sent (calls (run (stop (run (new_ndi True)
       [CallStart ''cam'' (Dbl 30) 1280 720 True, SenderSettled 0 True False (Dbl 0),
        PushAudio \<lparr>data = [1], nSamples = 4096\<rparr>, PushAudio \<lparr>data = [2], nSamples = 4096\<rparr>,
        PushAudio \<lparr>data = [3], nSamples = 4096\<rparr>]))
       [AudioSettled 0 True, CallStart ''cam'' (Dbl 30) 1280 720 True, SenderSettled 0 True False (Dbl 9),
        PushAudio \<lparr>data = [4], nSamples = 4096\<rparr>, AudioSettled 0 True])) =
     [\<lparr>data = [1], nSamples = 4096\<rparr>, \<lparr>data = [4], nSamples = 4096\<rparr>] \<and>
   audioQueue (sender_settled (run (new_ndi True) [CallStart ''cam'' (Dbl 30) 1280 720 True]) 0 True False (Dbl 0)) = []"
  using stop_discards_queue [of "run (new_ndi True)
       [CallStart ''cam'' (Dbl 30) 1280 720 True, SenderSettled 0 True False (Dbl 0),
        PushAudio \<lparr>data = [1], nSamples = 4096\<rparr>, PushAudio \<lparr>data = [2], nSamples = 4096\<rparr>,
        PushAudio \<lparr>data = [3], nSamples = 4096\<rparr>]"
      "[AudioSettled 0 True, CallStart ''cam'' (Dbl 30) 1280 720 True, SenderSettled 0 True False (Dbl 9),
        PushAudio \<lparr>data = [4], nSamples = 4096\<rparr>, AudioSettled 0 True]" 0 False "Dbl 0"]
    stop_discards_queue [of "run (new_ndi True) [CallStart ''cam'' (Dbl 30) 1280 720 True]" "[]" 0 False "Dbl 0"]
  by (simp add: ndi_eval)

section \<open>The broadcast relay: copies, closed instances\<close>

lemma clone_fresh:
  "structuredClone n v = Some (v', n') \<Longrightarrow>
     shape v' = shape v \<and> n \<le> n' \<and> set (addrs v') \<subseteq> {n..<n'} \<and>
     \<not> has_fun v' \<and> has_host v' = has_host v"
  "clone_list n vs = Some (vs', n') \<Longrightarrow>
     shape_list vs' = shape_list vs \<and> n \<le> n' \<and> set (addrs_list vs') \<subseteq> {n..<n'} \<and>
     \<not> has_fun_list vs' \<and> has_host_list vs' = has_host_list vs"
  "clone_props n ps = Some (ps', n') \<Longrightarrow>
     shape_props ps' = shape_props ps \<and> n \<le> n' \<and> set (addrs_props ps') \<subseteq> {n..<n'} \<and>
     \<not> has_fun_props ps' \<and> has_host_props ps' = has_host_props ps"
proof (induction n v and n vs and n ps arbitrary: v' n' and vs' n' and ps' n'
    rule: structuredClone_clone_list_clone_props.induct)
  case (5 n a vs)
  then show ?case by (fastforce split: option.splits)
next
  case (6 n a ps)
  then show ?case by (fastforce split: option.splits)
next
  case (10 n v vs)
  from "10.prems" obtain w n1 ws where
    a: "structuredClone n v = Some (w, n1)" and b: "clone_list n1 vs = Some (ws, n')"
    and c: "vs' = w # ws"
    by (auto split: option.splits)
  from "10.IH"(1) [OF a] "10.IH"(2) [OF a refl b] c show ?case
    by (auto 0 3)
next
  case (12 n p ps)
  from "12.prems" obtain w n1 ws where
    a: "structuredClone n (snd p) = Some (w, n1)" and b: "clone_props n1 ps = Some (ws, n')"
    and c: "ps' = (fst p, w) # ws"
    by (auto split: option.splits)
  from "12.IH"(1) [OF a] "12.IH"(2) [OF a refl b] c show ?case
    by (auto 0 3)
qed auto

lemma clone_defined:
  "(structuredClone n v = None) = has_fun v"
  "(clone_list n vs = None) = has_fun_list vs"
  "(clone_props n ps = None) = has_fun_props ps"
proof (induction n v and n vs and n ps rule: structuredClone_clone_list_clone_props.induct)
  case (10 n v vs)
  show ?case
  proof (cases "structuredClone n v")
    case None
    with "10.IH"(1) show ?thesis by simp
  next
    case (Some r)
    obtain w n1 where r: "r = (w, n1)" by (cases r)
    from "10.IH"(1) Some have "\<not> has_fun v" by simp
    with "10.IH"(2) [OF Some [unfolded r] refl] Some r show ?thesis
      by (cases "clone_list n1 vs") auto
  qed
next
  case (12 n p ps)
  show ?case
  proof (cases "structuredClone n (snd p)")
    case None
    with "12.IH"(1) show ?thesis by simp
  next
    case (Some r)
    obtain w n1 where r: "r = (w, n1)" by (cases r)
    from "12.IH"(1) Some have "\<not> has_fun (snd p)" by simp
    with "12.IH"(2) [OF Some [unfolded r] refl] Some r show ?thesis
      by (cases "clone_props n1 ps") auto
  qed
qed (auto split: option.splits)


lemma copies_widen:
  assumes "list_all (\<lambda>d. shape d = sh \<and> set (addrs d) \<subseteq> {a..<b}) ds" "a' \<le> a" "b \<le> b'"
  shows "list_all (\<lambda>d. shape d = sh \<and> set (addrs d) \<subseteq> {a'..<b'}) ds"
proof -
  have "{a..<b} \<subseteq> {a'..<b'}" using assms(2,3) by auto
  with assms(1) show ?thesis unfolding list_all_iff by blast
qed

lemma copies_apart:
  assumes "list_all (\<lambda>d. shape d = sh \<and> set (addrs d) \<subseteq> {n..<b}) ds" "set (addrs c) \<subseteq> {a..<n}"
  shows "list_all (\<lambda>w. \<not> shares c w) ds"
proof -
  have "{a..<n} \<inter> {n..<b} = {}" by auto
  with assms show ?thesis unfolding list_all_iff shares_def by blast
qed

lemma dispatch_all_spec:
  assumes "\<not> has_fun c"
  shows "\<exists>s' ms. dispatch_all s self c js = Some s' \<and>
            insts s' = insts s \<and> registry s' = registry s \<and> delivered s' = delivered s \<and>
            outbox s' = outbox s \<and> nextAddr s \<le> nextAddr s' \<and>
            microtasks s' = microtasks s @ ms \<and>
            map fst ms = filter (\<lambda>j. Some j \<noteq> self \<and> \<not> closed (insts s ! j)) js \<and>
            list_all (\<lambda>d. shape d = shape c \<and> set (addrs d) \<subseteq> {nextAddr s..<nextAddr s'})
              (map snd ms) \<and>
            no_sharing (map snd ms)"
proof (induction js arbitrary: s)
  case Nil
  show ?case by simp
next
  case (Cons j js)
  show ?case
  proof (cases "Some j \<noteq> self \<and> \<not> closed (insts s ! j)")
    case False
    from Cons.IH [of s] False show ?thesis by auto
  next
    case True
    from assms clone_defined(1) [of "nextAddr s" c]
    obtain d n where cl: "structuredClone (nextAddr s) c = Some (d, n)" by fastforce
    from clone_fresh(1) [OF cl]
    have d: "shape d = shape c" "nextAddr s \<le> n" "set (addrs d) \<subseteq> {nextAddr s..<n}" by simp_all
    let ?s1 = "s\<lparr>microtasks := microtasks s @ [(j, d)], nextAddr := n\<rparr>"
    from Cons.IH [of ?s1] obtain s' ms where
      r: "dispatch_all ?s1 self c js = Some s'"
      and k: "insts s' = insts s" "registry s' = registry s" "delivered s' = delivered s"
        "outbox s' = outbox s" "n \<le> nextAddr s'"
      and m: "microtasks s' = (microtasks s @ [(j, d)]) @ ms"
      and f: "map fst ms = filter (\<lambda>j. Some j \<noteq> self \<and> \<not> closed (insts s ! j)) js"
      and a: "list_all (\<lambda>e. shape e = shape c \<and> set (addrs e) \<subseteq> {n..<nextAddr s'}) (map snd ms)"
      and ns: "no_sharing (map snd ms)"
      by auto
    have a': "list_all (\<lambda>e. shape e = shape c \<and> set (addrs e) \<subseteq> {nextAddr s..<nextAddr s'})
        (map snd ((j, d) # ms))"
      using copies_widen [OF a d(2) order_refl] copies_widen [of "shape c" "nextAddr s" n "[d]", OF _ order_refl k(5)] d
      by simp
    have "list_all (\<lambda>w. \<not> shares d w) (map snd ms)"
      by (rule copies_apart [OF a d(3)])
    with ns have ns': "no_sharing (map snd ((j, d) # ms))" by simp
    have "dispatch_all s self c (j # js) = Some s'" using True cl r by simp
    moreover have "microtasks s' = microtasks s @ ((j, d) # ms)" using m by simp
    moreover have "map fst ((j, d) # ms) =
        filter (\<lambda>j. Some j \<noteq> self \<and> \<not> closed (insts s ! j)) (j # js)"
      using True f by simp
    moreover have "nextAddr s \<le> nextAddr s'" using d(2) k(5) by simp
    ultimately show ?thesis using k(1-4) a' ns' by blast
  qed
qed

lemma postMessage_spec:
  assumes open_i: "\<not> closed (insts s ! i)" and nf: "\<not> has_fun v"
  shows "\<exists>s' ms c. postMessage s i v = Inr s' \<and>
            insts s' = insts s \<and> registry s' = registry s \<and> delivered s' = delivered s \<and>
            microtasks s' = microtasks s @ ms \<and> map fst ms = targets s i \<and>
            outbox s' = outbox s @ (if has_host v then [] else [(name (insts s ! i), c)]) \<and>
            \<not> has_fun c \<and> has_host c = has_host v \<and>
            list_all (\<lambda>d. shape d = shape v \<and> set (addrs d) \<subseteq> {nextAddr s..<nextAddr s'})
              (c # map snd ms) \<and>
            no_sharing (c # map snd ms)"
proof -
  let ?js = "case registry s (name (insts s ! i)) of None \<Rightarrow> [] | Some js \<Rightarrow> js"
  from nf clone_defined(1) [of "nextAddr s" v]
  obtain c n where cl: "structuredClone (nextAddr s) v = Some (c, n)" by fastforce
  from clone_fresh(1) [OF cl]
  have c: "shape c = shape v" "nextAddr s \<le> n" "set (addrs c) \<subseteq> {nextAddr s..<n}"
    "\<not> has_fun c" "has_host c = has_host v" by simp_all
  from dispatch_all_spec [OF c(4), of "s\<lparr>nextAddr := n\<rparr>" "Some i" ?js]
  obtain s1 ms where
    r: "dispatch_all (s\<lparr>nextAddr := n\<rparr>) (Some i) c ?js = Some s1"
    and k: "insts s1 = insts s" "registry s1 = registry s" "delivered s1 = delivered s"
      "outbox s1 = outbox s" "n \<le> nextAddr s1" "microtasks s1 = microtasks s @ ms"
    and f: "map fst ms = filter (\<lambda>j. Some j \<noteq> Some i \<and> \<not> closed (insts s ! j)) ?js"
    and a: "list_all (\<lambda>d. shape d = shape c \<and> set (addrs d) \<subseteq> {n..<nextAddr s1}) (map snd ms)"
    and ns: "no_sharing (map snd ms)"
    by auto
  let ?s' = "if ipc_serializable c then s1\<lparr>outbox := outbox s1 @ [(name (insts s ! i), c)]\<rparr> else s1"
  have p: "postMessage s i v = Inr ?s'"
    using open_i cl r by (simp add: postMessage_def)
  have ser: "ipc_serializable c \<longleftrightarrow> \<not> has_host v" using c(4,5) by (simp add: ipc_serializable_def)
  have t: "map fst ms = targets s i" using f by (simp add: targets_def)
  have n': "nextAddr ?s' = nextAddr s1" by simp
  have a': "list_all (\<lambda>d. shape d = shape v \<and> set (addrs d) \<subseteq> {nextAddr s..<nextAddr ?s'})
      (c # map snd ms)"
    unfolding n'
    using copies_widen [OF a c(2) order_refl]
      copies_widen [of "shape c" "nextAddr s" n "[c]", OF _ order_refl k(5)] c(1,3)
    by simp
  have "list_all (\<lambda>w. \<not> shares c w) (map snd ms)"
    by (rule copies_apart [OF a c(3)])
  with ns have ns': "no_sharing (c # map snd ms)" by simp
  have o: "outbox ?s' = outbox s @ (if has_host v then [] else [(name (insts s ! i), c)])"
    using ser k(4) by simp
  have "insts ?s' = insts s" "registry ?s' = registry s" "delivered ?s' = delivered s"
    "microtasks ?s' = microtasks s @ ms"
    using k by simp_all
  with p t o c(4,5) a' ns' show ?thesis by blast
qed

lemma on_broadcast_spec:
  assumes nf: "\<not> has_fun c"
  shows "\<exists>s' ms. on_broadcast s channel c = Some s' \<and>
            insts s' = insts s \<and> registry s' = registry s \<and> delivered s' = delivered s \<and>
            outbox s' = outbox s \<and>
            microtasks s' = microtasks s @ ms \<and> map fst ms = receivers s channel \<and>
            list_all (\<lambda>d. shape d = shape c \<and> set (addrs d) \<subseteq> {nextAddr s..<nextAddr s'})
              (map snd ms) \<and>
            no_sharing (map snd ms)"
proof -
  from nf clone_defined(1) [of "nextAddr s" c]
  obtain m n where cl: "structuredClone (nextAddr s) c = Some (m, n)" by fastforce
  from clone_fresh(1) [OF cl]
  have m: "shape m = shape c" "nextAddr s \<le> n" "\<not> has_fun m" by simp_all
  show ?thesis
  proof (cases "registry s channel")
    case None
    then show ?thesis using cl by (simp add: on_broadcast_def receivers_def)
  next
    case (Some js)
    from dispatch_all_spec [OF m(3), of "s\<lparr>nextAddr := n\<rparr>" None js]
    obtain s' ms where
      r: "dispatch_all (s\<lparr>nextAddr := n\<rparr>) None m js = Some s'"
      and k: "insts s' = insts s" "registry s' = registry s" "delivered s' = delivered s"
        "outbox s' = outbox s" "n \<le> nextAddr s'" "microtasks s' = microtasks s @ ms"
      and f: "map fst ms = filter (\<lambda>j. Some j \<noteq> None \<and> \<not> closed (insts s ! j)) js"
      and a: "list_all (\<lambda>d. shape d = shape m \<and> set (addrs d) \<subseteq> {n..<nextAddr s'}) (map snd ms)"
      and ns: "no_sharing (map snd ms)"
      by auto
    have "on_broadcast s channel c = Some s'" using cl Some r by (simp add: on_broadcast_def)
    moreover have "map fst ms = receivers s channel" using f Some by (simp add: receivers_def)
    moreover have "list_all (\<lambda>d. shape d = shape c \<and> set (addrs d) \<subseteq> {nextAddr s..<nextAddr s'})
        (map snd ms)"
      using copies_widen [OF a m(2) order_refl] m(1) by simp
    ultimately show ?thesis using k ns by blast
  qed
qed


lemma relay_run_Nil [simp]: "relay_run s [] = s"
  by (simp add: relay_run_def)

lemma relay_run_Cons [simp]: "relay_run s (e # es) = relay_run (relay_step s e) es"
  by (simp add: relay_run_def)

lemma postMessage_keeps:
  assumes "postMessage s i v = Inr s'"
  shows "insts s' = insts s \<and> delivered s' = delivered s"
proof -
  from assms have o: "\<not> closed (insts s ! i)" by (auto simp: postMessage_def split: if_splits)
  from assms o have "structuredClone (nextAddr s) v \<noteq> None"
    by (auto simp: postMessage_def split: option.splits)
  then have "\<not> has_fun v" by (simp add: clone_defined(1))
  from postMessage_spec [OF o this] assms show ?thesis by auto
qed

lemma on_broadcast_keeps:
  assumes "on_broadcast s ch c = Some s'"
  shows "insts s' = insts s \<and> delivered s' = delivered s"
proof -
  from assms have "structuredClone (nextAddr s) c \<noteq> None"
    by (auto simp: on_broadcast_def split: option.splits)
  then have "\<not> has_fun c" by (simp add: clone_defined(1))
  from on_broadcast_spec [OF this, of s ch] assms show ?thesis by auto
qed

lemma upd_closed:
  "i < length xs \<Longrightarrow> closed (xs ! i) \<Longrightarrow> closed (xs[j := (xs ! j)\<lparr>closed := True\<rparr>] ! i)"
  by (cases "i = j") simp_all

lemma close_insts:
  "insts (close s j) =
     (if closed (insts s ! j) then insts s else (insts s)[j := (insts s ! j)\<lparr>closed := True\<rparr>])"
  by (simp add: close_def Let_def split: option.splits)

lemma close_fields:
  "length (insts (close s j)) = length (insts s)" "delivered (close s j) = delivered s"
  "closed (insts s ! i) \<Longrightarrow> i < length (insts s) \<Longrightarrow> closed (insts (close s j) ! i)"
  "i < length (insts s) \<Longrightarrow> closed (insts (close s i) ! i)"
proof -
  show "length (insts (close s j)) = length (insts s)" by (simp add: close_insts)
  show "delivered (close s j) = delivered s"
    by (simp add: close_def Let_def split: option.splits)
  show "closed (insts s ! i) \<Longrightarrow> i < length (insts s) \<Longrightarrow> closed (insts (close s j) ! i)"
    by (simp add: close_insts upd_closed)
  show "i < length (insts s) \<Longrightarrow> closed (insts (close s i) ! i)"
    by (simp add: close_insts)
qed


lemma closed_step:
  assumes l: "i < length (insts s)" and c: "closed (insts s ! i)"
  shows "i < length (insts (relay_step s e)) \<and> closed (insts (relay_step s e) ! i) \<and>
         filter (to_inst i) (delivered (relay_step s e)) = filter (to_inst i) (delivered s)"
proof (cases e)
  case (New nm)
  have "insts (new_channel s nm) = insts s @ [\<lparr>name = nm, closed = False\<rparr>]"
    "delivered (new_channel s nm) = delivered s"
    by (simp_all add: new_channel_def Let_def)
  with l c New show ?thesis by (simp add: nth_append)
next
  case (Post j m)
  show ?thesis
  proof (cases "postMessage s j m")
    case (Inl err)
    with Post l c show ?thesis by simp
  next
    case (Inr s')
    from postMessage_keeps [OF Inr] have "insts s' = insts s" "delivered s' = delivered s"
      by simp_all
    with Post Inr l c show ?thesis by simp
  qed
next
  case (Close j)
  from close_fields(1) [of s j] close_fields(2) [of s j] close_fields(3) [OF c l, of j]
  have "i < length (insts (close s j))" "closed (insts (close s j) ! i)"
    "delivered (close s j) = delivered s"
    using l by simp_all
  with Close l c show ?thesis by simp
next
  case Microtask
  show ?thesis
  proof (cases "microtasks s")
    case Nil
    with Microtask l c show ?thesis by (simp add: run_microtask_def)
  next
    case (Cons t rest)
    obtain k d where t: "t = (k, d)" by (cases t)
    show ?thesis
    proof (cases "closed (insts s ! k)")
      case True
      with Microtask Cons t l c show ?thesis by (simp add: run_microtask_def)
    next
      case False
      with c have "k \<noteq> i" by auto
      with False Microtask Cons t l c show ?thesis
        by (simp add: run_microtask_def to_inst_def)
    qed
  qed
next
  case (Receive ch payload)
  show ?thesis
  proof (cases "on_broadcast s ch payload")
    case None
    with Receive l c show ?thesis by simp
  next
    case (Some s')
    from on_broadcast_keeps [OF Some] have "insts s' = insts s" "delivered s' = delivered s"
      by simp_all
    with Receive Some l c show ?thesis by simp
  qed
qed

lemma closed_run:
  assumes "i < length (insts s)" "closed (insts s ! i)"
  shows "i < length (insts (relay_run s es)) \<and> closed (insts (relay_run s es) ! i) \<and>
         filter (to_inst i) (delivered (relay_run s es)) = filter (to_inst i) (delivered s)"
  using assms
proof (induction es arbitrary: s)
  case Nil
  then show ?case by simp
next
  case (Cons e es)
  from closed_step [OF Cons.prems, of e] Cons.IH [of "relay_step s e"] show ?case by simp
qed

lemmas relay_eval = relay_run_def new_relay_def new_channel_def postMessage_def close_def
  run_microtask_def on_broadcast_def targets_def receivers_def ipc_serializable_def Let_def
  to_inst_def deep_equal_def shares_def json_def

text \<open>
  Claim C7. \<^verbatim>\<open>postMessage\<close> on a closed instance throws at once (the InvalidStateError
  DOMException, the relay's ClosedResourceError) and changes nothing. After \<^verbatim>\<open>close()\<close>
  the instance stays closed whatever happens next, no MessageEvent is dispatched on it
  any more, the deliveries queued before the close included, and it is never among the
  instances a publish or a forwarded message is scheduled for.
\<close>

theorem closed_subscriber_silent:
  assumes "i < length (insts s)"
  shows "(closed (insts s ! i) \<longrightarrow> postMessage s i m = Inl InvalidStateError) \<and>
         closed (insts (relay_run (close s i) es) ! i) \<and>
         filter (to_inst i) (delivered (relay_run (close s i) es)) =
           filter (to_inst i) (delivered s) \<and>
         i \<notin> set (targets (relay_run (close s i) es) j) \<and>
         i \<notin> set (receivers (relay_run (close s i) es) ch)"
proof -
  have l: "i < length (insts (close s i))" using assms by (simp add: close_fields(1))
  have c: "closed (insts (close s i) ! i)" using assms by (rule close_fields(4))
  from closed_run [OF l c, of es]
  have r: "closed (insts (relay_run (close s i) es) ! i)"
    and d: "filter (to_inst i) (delivered (relay_run (close s i) es)) =
      filter (to_inst i) (delivered (close s i))"
    by blast+
  have p: "closed (insts s ! i) \<longrightarrow> postMessage s i m = Inl InvalidStateError"
    by (simp add: postMessage_def)
  have t: "i \<notin> set (targets (relay_run (close s i) es) j)"
    using r by (simp add: targets_def)
  have v: "i \<notin> set (receivers (relay_run (close s i) es) ch)"
    using r by (simp add: receivers_def)
  from p r d t v show ?thesis by (simp add: close_fields(2))
qed


theorem closed_subscriber_silent_witness:
  "postMessage (relay_run new_relay [New ''x'', New ''x'', Post 0 (JStr ''hi''), Close 1]) 1 (JStr ''yo'') =
     Inl InvalidStateError \<and>
   microtasks (relay_run new_relay [New ''x'', New ''x'', Post 0 (JStr ''hi'')]) = [(1, JStr ''hi'')] \<and>
   delivered (relay_run (close (relay_run new_relay [New ''x'', New ''x'', Post 0 (JStr ''hi'')]) 1)
     [Microtask, Post 0 (JStr ''again''), Receive ''x'' (JNum 3), Microtask, Microtask]) =
     [(0, JNum 3)]"
  using closed_subscriber_silent [of 1
      "relay_run new_relay [New ''x'', New ''x'', Post 0 (JStr ''hi''), Close 1]" "JStr ''yo''" "[]" 0 "''x''"]
    closed_subscriber_silent [of 1
      "relay_run new_relay [New ''x'', New ''x'', Post 0 (JStr ''hi'')]" "JStr ''yo''"
      "[Microtask, Post 0 (JStr ''again''), Receive ''x'' (JNum 3), Microtask, Microtask]" 0 "''x''"]
  by (simp add: relay_eval)


lemma addrs_below_apart:
  assumes "\<forall>a \<in> set (addrs v). a < n" "set (addrs d) \<subseteq> {n..<b}"
  shows "\<not> shares d v"
  using assms unfolding shares_def by fastforce

text \<open>
  Claim C1, as stated, fails: a message holding a function cannot be copied, and the
  publish throws DataCloneError although another open subscriber is on the channel.
\<close>

theorem publish_uncopyable_counterexample:
  "has_fun (JObj 0 [(''f'', JFun 1)]) \<and>
   targets (relay_run new_relay [New ''x'', New ''x'']) 0 = [1] \<and>
   postMessage (relay_run new_relay [New ''x'', New ''x'']) 0 (JObj 0 [(''f'', JFun 1)]) =
     Inl DataCloneError"
  by (simp add: relay_eval)

text \<open>
  Claim C1, amended. On an open instance, a message that \<^verbatim>\<open>structuredClone\<close> cannot copy
  makes \<^verbatim>\<open>postMessage\<close> throw DataCloneError, with nothing scheduled and nothing
  forwarded. A message that can be copied but not serialised for the IPC (it holds a host
  object) does not make the call fail: nothing is forwarded, and every other open
  instance of the channel is scheduled a deep-equal copy of its own.
\<close>

theorem publish_uncopyable:
  assumes "i < length (insts s)" "\<not> closed (insts s ! i)"
  shows "(has_fun m \<longrightarrow> postMessage s i m = Inl DataCloneError) \<and>
         (\<not> has_fun m \<and> has_host m \<longrightarrow>
            (\<exists>s' ms. postMessage s i m = Inr s' \<and> outbox s' = outbox s \<and>
               delivered s' = delivered s \<and> microtasks s' = microtasks s @ ms \<and>
               map fst ms = targets s i \<and> list_all (\<lambda>d. deep_equal d m) (map snd ms) \<and>
               no_sharing (map snd ms)))"
proof (intro conjI impI)
  assume "has_fun m"
  then have "structuredClone (nextAddr s) m = None" by (simp add: clone_defined(1))
  with assms(2) show "postMessage s i m = Inl DataCloneError" by (simp add: postMessage_def)
next
  assume a: "\<not> has_fun m \<and> has_host m"
  from postMessage_spec [OF assms(2), of m] a obtain s' ms c where
    p: "postMessage s i m = Inr s'" "delivered s' = delivered s"
      "microtasks s' = microtasks s @ ms" "map fst ms = targets s i" "outbox s' = outbox s"
    and l: "list_all (\<lambda>d. shape d = shape m \<and> set (addrs d) \<subseteq> {nextAddr s..<nextAddr s'})
              (c # map snd ms)"
    and ns: "no_sharing (c # map snd ms)"
    by auto
  from l have "list_all (\<lambda>d. deep_equal d m) (map snd ms)"
    by (simp add: list_all_iff deep_equal_def)
  moreover from ns have "no_sharing (map snd ms)" by simp
  ultimately show "\<exists>s' ms. postMessage s i m = Inr s' \<and> outbox s' = outbox s \<and>
               delivered s' = delivered s \<and> microtasks s' = microtasks s @ ms \<and>
               map fst ms = targets s i \<and> list_all (\<lambda>d. deep_equal d m) (map snd ms) \<and>
               no_sharing (map snd ms)"
    using p by blast
qed

theorem publish_uncopyable_witness:
  "postMessage (relay_run new_relay [New ''x'', New ''x'', New ''y'']) 0 (JArr 5 [JFun 6]) =
     Inl DataCloneError \<and>
   (\<exists>s'. postMessage (relay_run new_relay [New ''x'', New ''x'', New ''y'']) 0
            (JObj 5 [(''img'', JHost 6 ''ImageData'')]) = Inr s' \<and>
         outbox s' = [] \<and> microtasks s' = [(1, JObj 2 [(''img'', JHost 3 ''ImageData'')])])"
  using publish_uncopyable [of 0 "relay_run new_relay [New ''x'', New ''x'', New ''y'']" "JArr 5 [JFun 6]"]
    publish_uncopyable [of 0 "relay_run new_relay [New ''x'', New ''x'', New ''y'']"
      "JObj 5 [(''img'', JHost 6 ''ImageData'')]"]
  by (simp add: relay_eval)

text \<open>
  Claim C8. Publish a JSON-representable value \<open>v\<close> whose objects exist already. The
  call succeeds; every other open instance of the channel is scheduled one copy and one
  copy is forwarded; each copy is deep-equal to \<open>v\<close> and shares no object with \<open>v\<close>, and
  no two copies share an object. In any other window \<open>t\<close> that receives the forwarded
  payload, every open instance of the channel is scheduled a copy deep-equal to \<open>v\<close>,
  made of objects new in that window, and no two of these share an object. A scheduled
  delivery hands its data to the instance unchanged.
\<close>

theorem broadcast_round_trip:
  assumes "i < length (insts s)" "\<not> closed (insts s ! i)" "json v"
    and "\<forall>a \<in> set (addrs v). a < nextAddr s"
  shows "(microtasks u = (j, d) # rest \<and> \<not> closed (insts u ! j) \<longrightarrow>
            delivered (run_microtask u) = delivered u @ [(j, d)]) \<and>
         (\<exists>s' ms c. postMessage s i v = Inr s' \<and>
           microtasks s' = microtasks s @ ms \<and> map fst ms = targets s i \<and>
           outbox s' = outbox s @ [(name (insts s ! i), c)] \<and>
           list_all (\<lambda>d. deep_equal d v \<and> \<not> shares d v) (c # map snd ms) \<and>
           no_sharing (c # map snd ms) \<and>
           (\<exists>t' ns. on_broadcast t (name (insts s ! i)) c = Some t' \<and>
              microtasks t' = microtasks t @ ns \<and>
              map fst ns = receivers t (name (insts s ! i)) \<and>
              list_all (\<lambda>d. deep_equal d v \<and> (\<forall>a \<in> set (addrs d). nextAddr t \<le> a))
                (map snd ns) \<and>
              no_sharing (map snd ns)))"
proof -
  from assms(3) have nf: "\<not> has_fun v" and nh: "\<not> has_host v" by (simp_all add: json_def)
  from postMessage_spec [OF assms(2) nf] nh obtain s' ms c where
    p: "postMessage s i v = Inr s'" "microtasks s' = microtasks s @ ms" "map fst ms = targets s i"
      "outbox s' = outbox s @ [(name (insts s ! i), c)]"
    and cf: "\<not> has_fun c"
    and l: "list_all (\<lambda>d. shape d = shape v \<and> set (addrs d) \<subseteq> {nextAddr s..<nextAddr s'})
              (c # map snd ms)"
    and ns: "no_sharing (c # map snd ms)"
    by auto
  have l': "list_all (\<lambda>d. deep_equal d v \<and> \<not> shares d v) (c # map snd ms)"
    unfolding list_all_iff
  proof
    fix d assume "d \<in> set (c # map snd ms)"
    with l have "shape d = shape v" "set (addrs d) \<subseteq> {nextAddr s..<nextAddr s'}"
      unfolding list_all_iff by blast+
    with addrs_below_apart [OF assms(4)] show "deep_equal d v \<and> \<not> shares d v"
      by (simp add: deep_equal_def)
  qed
  from l have sc: "shape c = shape v" by simp
  from on_broadcast_spec [OF cf, of t "name (insts s ! i)"] obtain t' ns' where
    q: "on_broadcast t (name (insts s ! i)) c = Some t'" "microtasks t' = microtasks t @ ns'"
      "map fst ns' = receivers t (name (insts s ! i))"
    and m: "list_all (\<lambda>d. shape d = shape c \<and> set (addrs d) \<subseteq> {nextAddr t..<nextAddr t'})
              (map snd ns')"
    and ns2: "no_sharing (map snd ns')"
    by auto
  have m': "list_all (\<lambda>d. deep_equal d v \<and> (\<forall>a \<in> set (addrs d). nextAddr t \<le> a)) (map snd ns')"
    unfolding list_all_iff
  proof
    fix d assume "d \<in> set (map snd ns')"
    with m have "shape d = shape c" "set (addrs d) \<subseteq> {nextAddr t..<nextAddr t'}"
      unfolding list_all_iff by blast+
    with sc show "deep_equal d v \<and> (\<forall>a \<in> set (addrs d). nextAddr t \<le> a)"
      by (auto simp: deep_equal_def)
  qed
  have run: "microtasks u = (j, d) # rest \<and> \<not> closed (insts u ! j) \<longrightarrow>
            delivered (run_microtask u) = delivered u @ [(j, d)]"
    by (simp add: run_microtask_def)
  from p l' ns q m' ns2 have "\<exists>s' ms c. postMessage s i v = Inr s' \<and>
           microtasks s' = microtasks s @ ms \<and> map fst ms = targets s i \<and>
           outbox s' = outbox s @ [(name (insts s ! i), c)] \<and>
           list_all (\<lambda>d. deep_equal d v \<and> \<not> shares d v) (c # map snd ms) \<and>
           no_sharing (c # map snd ms) \<and>
           (\<exists>t' ns. on_broadcast t (name (insts s ! i)) c = Some t' \<and>
              microtasks t' = microtasks t @ ns \<and>
              map fst ns = receivers t (name (insts s ! i)) \<and>
              list_all (\<lambda>d. deep_equal d v \<and> (\<forall>a \<in> set (addrs d). nextAddr t \<le> a))
                (map snd ns) \<and>
              no_sharing (map snd ns))"
    by blast
  with run show ?thesis by blast
qed

theorem broadcast_round_trip_witness:
  "(\<exists>s'. postMessage
            (relay_run new_relay [New ''x'', New ''x'', New ''x'', Close 2, Receive ''x'' (JArr 0 [JNull])])
            0 (JObj 0 [(''a'', JNum 1), (''b'', JArr 1 [JStr ''u''])]) = Inr s' \<and>
      microtasks s' =
        [(0, JArr 1 [JNull]), (1, JArr 2 [JNull]),
         (1, JObj 5 [(''a'', JNum 1), (''b'', JArr 6 [JStr ''u''])])] \<and>
      outbox s' = [(''x'', JObj 3 [(''a'', JNum 1), (''b'', JArr 4 [JStr ''u''])])]) \<and>
   (\<exists>t'. on_broadcast (relay_run new_relay [New ''x'', New ''z'', New ''x''])
            ''x'' (JObj 3 [(''a'', JNum 1), (''b'', JArr 4 [JStr ''u''])]) = Some t' \<and>
      microtasks t' =
        [(0, JObj 2 [(''a'', JNum 1), (''b'', JArr 3 [JStr ''u''])]),
         (2, JObj 4 [(''a'', JNum 1), (''b'', JArr 5 [JStr ''u''])])]) \<and>
   delivered (relay_run new_relay
      [New ''x'', New ''x'', Post 0 (JArr 0 [JNum 7]), Microtask]) = [(1, JArr 1 [JNum 7])]"
  using broadcast_round_trip [where
      u = "relay_run new_relay [New ''x'', New ''x'', Post 0 (JArr 0 [JNum 7])]"
      and j = 1 and d = "JArr 1 [JNum 7]" and rest = "[]" and i = 0
      and s = "relay_run new_relay [New ''x'', New ''x'', New ''x'', Close 2, Receive ''x'' (JArr 0 [JNull])]"
      and v = "JObj 0 [(''a'', JNum 1), (''b'', JArr 1 [JStr ''u''])]"
      and t = "relay_run new_relay [New ''x'', New ''z'', New ''x'']"]
  by (simp add: relay_eval)

end
